theory Spec2Isabelle
  imports Main "HOL-Library.Word" "HOL-Library.AList"
begin

unbundle bit_operations_syntax

section \<open>JavaScript values used by the scanner\<close>

text \<open>
  A JavaScript string is a sequence of 16-bit UTF-16 code units: \<open>s.length\<close> counts them
  and \<open>s.charCodeAt(i)\<close> reads one.
\<close>

type_synonym code_unit = "16 word"
type_synonym jsstring = "code_unit list"

definition str :: "string \<Rightarrow> jsstring" where
  "str s = map (\<lambda>c. of_nat (of_char c)) s"

text \<open>
  \<open>ToInt32\<close>, and the two 32-bit operators of \<open>generateChecksum\<close>. The operands are
  integers far below \<open>2 ^ 53\<close>, where the arithmetic of JavaScript numbers is exact, so
  numbers are modelled as \<open>int\<close> and every conversion to 32 bits is written out:
  \<open>x << n\<close> converts \<open>x\<close> to 32 bits, shifts by \<open>n\<close> modulo 32 and reads the result as
  a signed 32-bit integer; \<open>x & y\<close> converts both operands and joins their bits.
\<close>

definition toInt32 :: "int \<Rightarrow> int" where
  "toInt32 x = (x + 2 ^ 31) mod 2 ^ 32 - 2 ^ 31"

definition js_shl :: "int \<Rightarrow> nat \<Rightarrow> int" where
  "js_shl x n = toInt32 (toInt32 x * 2 ^ (n mod 32))"

definition js_and :: "int \<Rightarrow> int \<Rightarrow> int" where
  "js_and x y = toInt32 x AND toInt32 y"

text \<open>
  \<open>Number.prototype.toString\<close> on an integer: radix 36 for the checksum, radix 10 (the
  default) for the loop counter of the pattern scan.
\<close>

definition digit36 :: "nat \<Rightarrow> code_unit" where
  "digit36 d = str ''0123456789abcdefghijklmnopqrstuvwxyz'' ! d"

fun digits36 :: "nat \<Rightarrow> jsstring" where
  "digits36 n = (if n < 36 then [digit36 n] else digits36 (n div 36) @ [digit36 (n mod 36)])"

declare digits36.simps [simp del]

definition toString36 :: "int \<Rightarrow> jsstring" where
  "toString36 i = (if i < 0 then str ''-'' @ digits36 (nat (- i)) else digits36 (nat i))"

fun toString10 :: "nat \<Rightarrow> jsstring" where
  "toString10 n = (if n < 10 then [digit36 n] else toString10 (n div 10) @ [digit36 (n mod 10)])"

declare toString10.simps [simp del]

text \<open>\<open>s.padStart(2, '0')\<close>.\<close>

definition padStart2 :: "jsstring \<Rightarrow> jsstring" where
  "padStart2 s = replicate (2 - length s) (of_nat (of_char CHR ''0'')) @ s"

subsection \<open>String methods\<close>

text \<open>
  \<open>trim\<close> removes white space and line terminators from both ends: TAB, LF, VT, FF, CR,
  SP, NBSP, U+1680, U+2000 to U+200A, U+2028, U+2029, U+202F, U+205F, U+3000 and U+FEFF.
\<close>

definition is_space :: "code_unit \<Rightarrow> bool" where
  "is_space c \<longleftrightarrow>
     c \<in> {0x09, 0x0A, 0x0B, 0x0C, 0x0D, 0x20, 0xA0, 0x1680, 0x2028, 0x2029, 0x202F, 0x205F,
          0x3000, 0xFEFF} \<or> (0x2000 \<le> c \<and> c \<le> 0x200A)"

definition trim :: "jsstring \<Rightarrow> jsstring" where
  "trim s = rev (dropWhile is_space (rev (dropWhile is_space s)))"

text \<open>\<open>text.split('\n')\<close>: the pieces between line feeds, the empty ones too.\<close>

fun split_lines :: "jsstring \<Rightarrow> jsstring list" where
  "split_lines [] = [[]]"
| "split_lines (c # cs) =
     (if c = 0x0A then [] # split_lines cs
      else (case split_lines cs of [] \<Rightarrow> [[c]] | l # ls \<Rightarrow> (c # l) # ls))"

definition startsWith :: "jsstring \<Rightarrow> jsstring \<Rightarrow> bool" where
  "startsWith s p \<longleftrightarrow> take (length p) s = p"

definition endsWith :: "jsstring \<Rightarrow> jsstring \<Rightarrow> bool" where
  "endsWith s p \<longleftrightarrow> length p \<le> length s \<and> drop (length s - length p) s = p"

fun includes_js :: "jsstring \<Rightarrow> jsstring \<Rightarrow> bool" where
  "includes_js [] p \<longleftrightarrow> p = []"
| "includes_js (c # cs) p \<longleftrightarrow> startsWith (c # cs) p \<or> includes_js cs p"

text \<open>\<open>s.replace(p, '')\<close> with a string pattern: the first occurrence of \<open>p\<close> is removed.\<close>

fun remove_first :: "jsstring \<Rightarrow> jsstring \<Rightarrow> jsstring" where
  "remove_first p [] = []"
| "remove_first p (c # cs) =
     (if startsWith (c # cs) p then drop (length p) (c # cs) else c # remove_first p cs)"

subsection \<open>The regular expression \<open>/([^\/]+?)\.xml$/i\<close>\<close>

text \<open>
  \<open>xml_at_end r\<close>: the rest \<open>r\<close> of the input is matched by \<open>\.xml$\<close>, ignoring case.
  \<open>lazy_group acc r\<close>: the group \<open>[^\/]+?\<close> has consumed \<open>acc\<close>; being lazy it first tries
  to stop, and takes one more character other than \<open>/\<close> only when the rest does not match.
  \<open>match_at s\<close> is a match attempt at the start of \<open>s\<close>, and \<open>match_xml s\<close> the search of
  \<open>String.prototype.match\<close>: the attempts are made at each position from left to right and
  the first one to succeed gives capture group 1.
\<close>

definition xml_at_end :: "jsstring \<Rightarrow> bool" where
  "xml_at_end r \<longleftrightarrow>
     (case r of
        [d, x, m, l] \<Rightarrow>
          d = 0x2E \<and> (x = 0x78 \<or> x = 0x58) \<and> (m = 0x6D \<or> m = 0x4D) \<and> (l = 0x6C \<or> l = 0x4C)
      | _ \<Rightarrow> False)"

fun lazy_group :: "jsstring \<Rightarrow> jsstring \<Rightarrow> jsstring option" where
  "lazy_group acc r =
     (if xml_at_end r then Some acc
      else (case r of [] \<Rightarrow> None
            | c # cs \<Rightarrow> if c = 0x2F then None else lazy_group (acc @ [c]) cs))"

declare lazy_group.simps [simp del]

definition match_at :: "jsstring \<Rightarrow> jsstring option" where
  "match_at s = (case s of [] \<Rightarrow> None | c # cs \<Rightarrow> if c = 0x2F then None else lazy_group [c] cs)"

fun match_xml :: "jsstring \<Rightarrow> jsstring option" where
  "match_xml [] = None"
| "match_xml (c # cs) = (case match_at (c # cs) of Some g \<Rightarrow> Some g | None \<Rightarrow> match_xml cs)"

text \<open>
  The callback shared by the index-file and the directory-listing strategies:
  \<open>match ? match[1] : line.replace('.xml', '')\<close>.
\<close>

definition extract_name :: "jsstring \<Rightarrow> jsstring" where
  "extract_name line = (case match_xml line of Some g \<Rightarrow> g | None \<Rightarrow> remove_first (str ''.xml'') line)"

subsection \<open>Maps and sets\<close>

text \<open>
  A JavaScript \<open>Map\<close> iterates in insertion order and \<open>set\<close> on a key already present
  replaces the value in place: an association list with \<open>AList.update\<close>. \<open>get\<close> is
  \<open>map_of\<close>. A \<open>Set\<close> is the list of its elements in insertion order.
\<close>

type_synonym ('k, 'v) js_map = "('k \<times> 'v) list"

definition has :: "('k, 'v) js_map \<Rightarrow> 'k \<Rightarrow> bool" where
  "has m k \<longleftrightarrow> map_of m k \<noteq> None"

definition set_add :: "'a list \<Rightarrow> 'a \<Rightarrow> 'a list" where
  "set_add s x = (if x \<in> set s then s else s @ [x])"

section \<open>The fingerprint: \<open>generateChecksum\<close>\<close>

definition checksum_step :: "int \<Rightarrow> code_unit \<Rightarrow> int" where
  "checksum_step hash char = (let hash = (js_shl hash 5 - hash) + uint char in js_and hash hash)"

definition generateChecksum :: "jsstring \<Rightarrow> jsstring" where
  "generateChecksum content = toString36 (foldl checksum_step 0 content)"

text \<open>
  The accumulation as the specification words it, \<open>hash = (hash*31 - hash) + code\<close>, for
  comparison with the source's.
\<close>

definition spec_fingerprint :: "jsstring \<Rightarrow> jsstring" where
  "spec_fingerprint content =
     toString36 (foldl (\<lambda>hash code. toInt32 ((hash * 31 - hash) + uint code)) 0 content)"

section \<open>Records of the scanner\<close>

text \<open>The objects pushed by \<open>scanDirectory\<close>.\<close>

record file_record =
  name :: jsstring
  url :: jsstring
  checksum :: jsstring
  lastModified :: jsstring
  size_f :: nat

text \<open>
  The result of \<open>getFileInfo\<close>: either \<open>{ exists: false }\<close> or
  \<open>{ content, checksum, lastModified, size, exists: true }\<close>.
\<close>

datatype file_info =
    NotExists
  | Exists (info_content: jsstring) (info_checksum: jsstring) (info_lastModified: jsstring)
      (info_size: nat)

definition info_exists :: "file_info \<Rightarrow> bool" where
  "info_exists i = (case i of NotExists \<Rightarrow> False | Exists _ _ _ _ \<Rightarrow> True)"

record change_flags =
  contentChanged :: bool
  sizeChanged :: bool
  timeChanged :: bool

record modified_entry =
  m_name :: jsstring
  previous :: file_record
  current :: file_record
  changes :: change_flags

record change_report =
  hasChanges :: bool
  added :: "file_record list"
  removed :: "file_record list"
  modified :: "modified_entry list"
  unchanged :: "file_record list"
  allFiles :: "jsstring list"

record cache_entry =
  exists :: bool
  timestamp :: int

text \<open>
  The property \<open>onChange\<close> of a scanner. Until something is assigned it is the method of
  the prototype, \<open>onChange(callback) { this.onChange = callback; }\<close>. A function
  registered by the host is modelled by whether its call returns (\<open>True\<close>) or throws;
  what it does to the rest of the program is outside the scanner. Any other value is
  only truthy or falsy, and calling a truthy one throws a \<open>TypeError\<close>.
\<close>

datatype on_change =
    PrototypeMethod
  | Function "change_report \<Rightarrow> bool"
  | NotCallable bool

record scanner =
  cache :: "(jsstring, cache_entry) js_map"
  contentCache :: "(jsstring, file_info) js_map"
  scanInterval :: "nat option"
  lastScanResults :: "file_record list"
  fileChecksums :: "(jsstring, jsstring) js_map"
  onChange :: on_change

definition constructor :: scanner where
  "constructor =
     \<lparr>cache = [], contentCache = [], scanInterval = None, lastScanResults = [],
      fileChecksums = [], onChange = PrototypeMethod\<rparr>"

section \<open>The change detector: \<open>detectChanges\<close>\<close>

text \<open>\<open>forEach(file => map.set(file.name, file))\<close> on a new \<open>Map\<close>.\<close>

definition to_map :: "file_record list \<Rightarrow> (jsstring, file_record) js_map" where
  "to_map files = foldl (\<lambda>m file. AList.update (name file) file m) [] files"

text \<open>The bodies of the three loops, each threading the report under construction.\<close>

definition check_added ::
  "(jsstring, file_record) js_map \<Rightarrow> change_report \<Rightarrow> jsstring \<times> file_record \<Rightarrow> change_report"
where
  "check_added previousMap report entry =
     (case entry of (nm, file) \<Rightarrow>
        if \<not> has previousMap nm
        then report\<lparr>added := added report @ [file], hasChanges := True\<rparr>
        else report)"

definition check_removed ::
  "(jsstring, file_record) js_map \<Rightarrow> change_report \<Rightarrow> jsstring \<times> file_record \<Rightarrow> change_report"
where
  "check_removed currentMap report entry =
     (case entry of (nm, file) \<Rightarrow>
        if \<not> has currentMap nm
        then report\<lparr>removed := removed report @ [file], hasChanges := True\<rparr>
        else report)"

definition check_modified ::
  "(jsstring, file_record) js_map \<Rightarrow> change_report \<Rightarrow> jsstring \<times> file_record \<Rightarrow> change_report"
where
  "check_modified previousMap report entry =
     (case entry of (nm, currentFile) \<Rightarrow>
        (case map_of previousMap nm of
           None \<Rightarrow> report
         | Some previousFile \<Rightarrow>
             if checksum currentFile \<noteq> checksum previousFile \<or>
                lastModified currentFile \<noteq> lastModified previousFile \<or>
                size_f currentFile \<noteq> size_f previousFile
             then report
               \<lparr>modified := modified report @
                  [\<lparr>m_name = nm, previous = previousFile, current = currentFile,
                    changes =
                      \<lparr>contentChanged = (checksum currentFile \<noteq> checksum previousFile),
                       sizeChanged = (size_f currentFile \<noteq> size_f previousFile),
                       timeChanged = (lastModified currentFile \<noteq> lastModified previousFile)\<rparr>\<rparr>],
                hasChanges := True\<rparr>
             else report\<lparr>unchanged := unchanged report @ [currentFile]\<rparr>))"

text \<open>
  \<open>detectChanges\<close> reads \<open>this.lastScanResults\<close> and its argument; it assigns to no
  property of \<open>this\<close> and calls no transport, so the model takes the scanner and returns
  the report only. The \<open>console.log\<close> calls at its end are left out here; they are part
  of \<open>detectChanges_call\<close> below, which runs the method on a store.
\<close>

definition detectChanges :: "file_record list \<Rightarrow> scanner \<Rightarrow> change_report" where
  "detectChanges currentFiles this =
     (let report0 =
            \<lparr>hasChanges = False, added = [], removed = [], modified = [], unchanged = [],
             allFiles = map name currentFiles\<rparr>;
          currentMap = to_map currentFiles;
          previousMap = to_map (lastScanResults this);
          report1 = foldl (check_added previousMap) report0 currentMap;
          report2 = foldl (check_removed currentMap) report1 previousMap;
          report3 = foldl (check_modified previousMap) report2 currentMap
      in report3)"

text \<open>
  What \<open>detectChanges\<close> writes to the console: the counts of the four lists, and the
  names of the modified files.
\<close>

datatype log_entry = ChangesDetected nat nat nat nat | ModifiedFiles "jsstring list"

section \<open>The transport and the clock\<close>

text \<open>
  \<open>fetch\<close>, \<open>Date\<close>, the HTML parser and the JSON parser are supplied by the browser. A
  \<open>response\<close> holds what the scanner reads of a \<open>Response\<close>: \<open>ok\<close>, \<open>headers.get\<close>, and
  the outcomes of \<open>text()\<close> and \<open>json()\<close>, \<open>None\<close> when the promise rejects. Of a parsed
  JSON value the scanner only asks whether it is an array and which elements are strings.
\<close>

datatype meth = GET | HEAD

datatype json = JString jsstring | JArray "json list" | JOther

record response =
  ok :: bool
  headers :: "jsstring \<Rightarrow> jsstring option"
  body_text :: "jsstring option"
  body_json :: "json option"

text \<open>
  The environment answers the \<open>k\<close>-th transport call of a run (\<open>None\<close>: \<open>fetch\<close> rejects)
  and says how many milliseconds pass until the answer; it renders a time as
  \<open>toISOString\<close> does, and lists the \<open>href\<close> values of the \<open>a\<close> elements of a parsed HTML
  page in document order. The world is the clock read by \<open>Date.now()\<close> and the transport
  calls issued so far.
\<close>

record env =
  respond :: "nat \<Rightarrow> meth \<Rightarrow> jsstring \<Rightarrow> response option"
  latency :: "nat \<Rightarrow> nat"
  toISOString :: "int \<Rightarrow> jsstring"
  anchor_hrefs :: "jsstring \<Rightarrow> jsstring list"

record world =
  clock :: int
  requests :: "(meth \<times> jsstring) list"

definition fetch :: "env \<Rightarrow> meth \<Rightarrow> jsstring \<Rightarrow> world \<Rightarrow> response option \<times> world" where
  "fetch e m u w =
     (let k = length (requests w)
      in (respond e k m u,
          w\<lparr>clock := clock w + int (latency e k), requests := requests w @ [(m, u)]\<rparr>))"

section \<open>\<open>detectChanges\<close> as a method call\<close>

text \<open>
  The same method once more, statement by statement, on everything a method can reach:
  the scanner \<open>this\<close>, the world of the transport and the clock, the console, and the
  locals \<open>changes\<close>, \<open>currentMap\<close> and \<open>previousMap\<close>. Each statement takes the store and
  returns the store after it; the loop bodies are those of \<open>detectChanges\<close> above, reading
  the maps from the store.
\<close>

record store =
  this_v :: scanner
  world_v :: world
  console_v :: "log_entry list"
  changes_v :: change_report
  currentMap_v :: "(jsstring, file_record) js_map"
  previousMap_v :: "(jsstring, file_record) js_map"

definition set_current :: "store \<Rightarrow> file_record \<Rightarrow> store" where
  "set_current st file = st\<lparr>currentMap_v := AList.update (name file) file (currentMap_v st)\<rparr>"

definition set_previous :: "store \<Rightarrow> file_record \<Rightarrow> store" where
  "set_previous st file = st\<lparr>previousMap_v := AList.update (name file) file (previousMap_v st)\<rparr>"

definition step_added :: "store \<Rightarrow> jsstring \<times> file_record \<Rightarrow> store" where
  "step_added st entry = st\<lparr>changes_v := check_added (previousMap_v st) (changes_v st) entry\<rparr>"

definition step_removed :: "store \<Rightarrow> jsstring \<times> file_record \<Rightarrow> store" where
  "step_removed st entry = st\<lparr>changes_v := check_removed (currentMap_v st) (changes_v st) entry\<rparr>"

definition step_modified :: "store \<Rightarrow> jsstring \<times> file_record \<Rightarrow> store" where
  "step_modified st entry = st\<lparr>changes_v := check_modified (previousMap_v st) (changes_v st) entry\<rparr>"

text \<open>The \<open>console.log\<close> calls that end the method.\<close>

definition log_changes :: "store \<Rightarrow> store" where
  "log_changes st =
     (if hasChanges (changes_v st) then
        (let st1 = st\<lparr>console_v := console_v st @
                     [ChangesDetected (length (added (changes_v st))) (length (removed (changes_v st)))
                        (length (modified (changes_v st))) (length (unchanged (changes_v st)))]\<rparr>
         in if length (modified (changes_v st1)) > 0
            then st1\<lparr>console_v := console_v st1 @
                        [ModifiedFiles (map m_name (modified (changes_v st1)))]\<rparr>
            else st1)
      else st)"

text \<open>
  The call: it starts from the scanner, the world and the console it is given, and
  returns the report with the scanner, the world and the console it leaves behind.
\<close>

definition detectChanges_call ::
  "file_record list \<Rightarrow> scanner \<times> world \<times> log_entry list \<Rightarrow>
   change_report \<times> scanner \<times> world \<times> log_entry list"
where
  "detectChanges_call currentFiles \<sigma> =
     (case \<sigma> of (this, w, out) \<Rightarrow>
        (let st0 =
               \<lparr>this_v = this, world_v = w, console_v = out,
                changes_v =
                  \<lparr>hasChanges = False, added = [], removed = [], modified = [], unchanged = [],
                   allFiles = map name currentFiles\<rparr>,
                currentMap_v = [], previousMap_v = []\<rparr>;
             st1 = foldl set_current st0 currentFiles;
             st2 = foldl set_previous st1 (lastScanResults (this_v st1));
             st3 = foldl step_added st2 (currentMap_v st2);
             st4 = foldl step_removed st3 (previousMap_v st3);
             st5 = foldl step_modified st4 (currentMap_v st4);
             st6 = log_changes st5
         in (changes_v st6, this_v st6, world_v st6, console_v st6)))"

section \<open>The metadata fetcher: \<open>getFileInfo\<close>\<close>

text \<open>
  A rejected \<open>fetch\<close> or \<open>text()\<close> is caught and gives \<open>{ exists: false }\<close>, as a response
  that is not \<open>ok\<close> does. In \<open>a || b\<close> the left operand is passed over when it is \<open>null\<close> or
  the empty string.
\<close>

definition getFileInfo :: "env \<Rightarrow> jsstring \<Rightarrow> world \<Rightarrow> file_info \<times> world" where
  "getFileInfo e u w =
     (case fetch e GET u w of
        (None, w') \<Rightarrow> (NotExists, w')
      | (Some response, w') \<Rightarrow>
          if ok response then
            (case body_text response of
               None \<Rightarrow> (NotExists, w')
             | Some content \<Rightarrow>
                 (let checksum = generateChecksum content;
                      lastModified =
                        (case headers response (str ''last-modified'') of
                           Some (c # cs) \<Rightarrow> c # cs
                         | _ \<Rightarrow>
                           (case headers response (str ''date'') of
                              Some (c # cs) \<Rightarrow> c # cs
                            | _ \<Rightarrow> toISOString e (clock w')))
                  in (Exists content checksum lastModified (length content), w')))
          else (NotExists, w'))"

section \<open>The existence probe: \<open>testFileExists\<close> and \<open>cleanupCache\<close>\<close>

text \<open>
  \<open>probe\<close> is the part after the cache check: the \<open>HEAD\<close> call and, when it completes,
  \<open>cache.set\<close>. A rejected \<open>fetch\<close> goes to the \<open>catch\<close>, which returns \<open>false\<close>.
\<close>

definition testFileExists ::
  "env \<Rightarrow> jsstring \<Rightarrow> scanner \<times> world \<Rightarrow> bool \<times> scanner \<times> world"
where
  "testFileExists e u \<sigma> =
     (case \<sigma> of (this, w) \<Rightarrow>
        (let cacheKey = str ''exists:'' @ u;
             cached = map_of (cache this) cacheKey;
             probe =
               (case fetch e HEAD u w of
                  (None, w') \<Rightarrow> (False, this, w')
                | (Some response, w') \<Rightarrow>
                    (let exists = ok response
                     in (exists,
                         this\<lparr>cache :=
                           AList.update cacheKey \<lparr>exists = exists, timestamp = clock w'\<rparr> (cache this)\<rparr>,
                         w')))
         in (case cached of
               None \<Rightarrow> probe
             | Some c \<Rightarrow> if clock w - timestamp c < 30000 then (exists c, this, w) else probe)))"

definition cleanupCache :: "int \<Rightarrow> scanner \<times> world \<Rightarrow> scanner" where
  "cleanupCache maxAge \<sigma> =
     (case \<sigma> of (this, w) \<Rightarrow>
        (let now = clock w
         in this\<lparr>cache := filter (\<lambda>entry. \<not> (now - timestamp (snd entry) > maxAge)) (cache this)\<rparr>))"

section \<open>Discovery\<close>

subsection \<open>Method 1: \<open>tryIndexFile\<close>\<close>

definition indexFiles :: "jsstring list" where
  "indexFiles =
     [str ''index.txt'', str ''files.txt'', str ''chapters.txt'', str ''list.txt'',
      str ''manifest.txt'', str ''xml-list.txt'']"

text \<open>The chain \<open>split\<close>, \<open>map\<close>, \<open>filter\<close>, \<open>map\<close>, \<open>filter\<close> applied to the body of an index file.\<close>

definition index_lines :: "jsstring \<Rightarrow> jsstring list" where
  "index_lines body =
     filter (\<lambda>file. length file > 0)
       (map extract_name
          (filter (\<lambda>line. line \<noteq> [] \<and> (endsWith line (str ''.xml'') \<or> includes_js line (str ''.xml'')))
             (map trim (split_lines body))))"

text \<open>
  The loop over the index files. A rejected \<open>fetch\<close> or \<open>text()\<close> is caught inside the
  loop, and the loop goes on with the next file.
\<close>

fun tryIndexFile_loop :: "env \<Rightarrow> jsstring \<Rightarrow> jsstring list \<Rightarrow> world \<Rightarrow> jsstring list \<times> world" where
  "tryIndexFile_loop e basePath [] w = ([], w)"
| "tryIndexFile_loop e basePath (indexFile # rest) w =
     (case fetch e GET (basePath @ indexFile) w of
        (None, w') \<Rightarrow> tryIndexFile_loop e basePath rest w'
      | (Some response, w') \<Rightarrow>
          if ok response then
            (case body_text response of
               None \<Rightarrow> tryIndexFile_loop e basePath rest w'
             | Some body \<Rightarrow>
                 (let files = index_lines body
                  in if length files > 0 then (files, w')
                     else tryIndexFile_loop e basePath rest w'))
          else tryIndexFile_loop e basePath rest w')"

definition tryIndexFile :: "env \<Rightarrow> jsstring \<Rightarrow> world \<Rightarrow> jsstring list \<times> world" where
  "tryIndexFile e basePath w = tryIndexFile_loop e basePath indexFiles w"

subsection \<open>Method 2: \<open>tryDirectoryListing\<close>\<close>

text \<open>
  The selector \<open>a[href$=".xml"], a[href*=".xml"]\<close> keeps the anchors whose \<open>href\<close> ends
  with or contains \<open>.xml\<close>.
\<close>

definition listing_links :: "env \<Rightarrow> jsstring \<Rightarrow> jsstring list" where
  "listing_links e html =
     filter (\<lambda>file. length file > 0)
       (map extract_name
          (filter (\<lambda>href. href \<noteq> [] \<and> \<not> startsWith href (str ''http'') \<and> \<not> startsWith href (str ''#''))
             (filter (\<lambda>href. endsWith href (str ''.xml'') \<or> includes_js href (str ''.xml''))
                (anchor_hrefs e html))))"

definition tryDirectoryListing :: "env \<Rightarrow> jsstring \<Rightarrow> world \<Rightarrow> jsstring list \<times> world" where
  "tryDirectoryListing e basePath w =
     (case fetch e GET basePath w of
        (None, w') \<Rightarrow> ([], w')
      | (Some response, w') \<Rightarrow>
          if ok response \<and>
             (case headers response (str ''content-type'') of
                None \<Rightarrow> False
              | Some contentType \<Rightarrow> includes_js contentType (str ''text/html''))
          then
            (case body_text response of
               None \<Rightarrow> ([], w')
             | Some html \<Rightarrow>
                 (let links = listing_links e html
                  in if length links > 0 then (links, w') else ([], w')))
          else ([], w'))"

subsection \<open>Method 3: \<open>tryPatternScanning\<close>\<close>

definition commonPatterns :: "jsstring list" where
  "commonPatterns =
     [str ''chapter-'', str ''quiz-'', str ''test-'', str ''questions-'',
      str ''unit-'', str ''lesson-'', str ''topic-'', str ''module-'',
      str ''ch-'', str ''q-'', str ''t-'', str ''ex-'']"

definition commonNames :: "jsstring list" where
  "commonNames =
     [str ''questions'', str ''quiz'', str ''test'', str ''exam'', str ''practice'',
      str ''exercise'', str ''problems'', str ''review'', str ''final'', str ''midterm'',
      str ''chapter1'', str ''chapter2'', str ''chapter3'', str ''unit1'', str ''unit2'',
      str ''algebra'', str ''geometry'', str ''calculus'', str ''physics'', str ''chemistry'']"

definition maxChecks :: nat where
  "maxChecks = 30"

text \<open>
  One probe of a candidate name: \<open>if (await this.testFileExists(path)) foundFiles.push(name)\<close>.
\<close>

definition probe_name ::
  "env \<Rightarrow> jsstring \<Rightarrow> jsstring list \<times> scanner \<times> world \<Rightarrow> jsstring \<Rightarrow> jsstring list \<times> scanner \<times> world"
where
  "probe_name e basePath acc nm =
     (case acc of (foundFiles, \<sigma>) \<Rightarrow>
        (case testFileExists e (basePath @ nm @ str ''.xml'') \<sigma> of
           (found, \<sigma>') \<Rightarrow> (if found then foundFiles @ [nm] else foundFiles, \<sigma>')))"

text \<open>The body of the inner loop: the plain number, then the zero-padded one.\<close>

definition pattern_body ::
  "env \<Rightarrow> jsstring \<Rightarrow> nat \<Rightarrow> jsstring list \<times> scanner \<times> world \<Rightarrow> jsstring \<Rightarrow> jsstring list \<times> scanner \<times> world"
where
  "pattern_body e basePath i acc pattern =
     (let acc1 = probe_name e basePath acc (pattern @ toString10 i);
          paddedNum = padStart2 (toString10 i)
      in probe_name e basePath acc1 (pattern @ paddedNum))"

text \<open>The body of the outer loop: every pattern with the number \<open>i\<close>.\<close>

definition pattern_round ::
  "env \<Rightarrow> jsstring \<Rightarrow> jsstring list \<times> scanner \<times> world \<Rightarrow> nat \<Rightarrow> jsstring list \<times> scanner \<times> world"
where
  "pattern_round e basePath acc i = foldl (pattern_body e basePath i) acc commonPatterns"

text \<open>The numbers 1 to \<open>maxChecks\<close>, then the common names.\<close>

definition tryPatternScanning ::
  "env \<Rightarrow> jsstring \<Rightarrow> scanner \<times> world \<Rightarrow> jsstring list \<times> scanner \<times> world"
where
  "tryPatternScanning e basePath \<sigma> =
     (let acc1 = foldl (pattern_round e basePath) ([], \<sigma>) [1 ..< Suc maxChecks]
      in foldl (probe_name e basePath) acc1 commonNames)"

subsection \<open>Method 4: \<open>checkChaptersJson\<close>\<close>

definition chapter_names :: "json list \<Rightarrow> jsstring list" where
  "chapter_names chapters =
     filter (\<lambda>chapter. length chapter > 0)
       (map trim
          (concat (map (\<lambda>chapter. case chapter of JString s \<Rightarrow> (if s \<noteq> [] then [s] else [])
                                     | _ \<Rightarrow> []) chapters)))"

definition checkChaptersJson :: "env \<Rightarrow> jsstring \<Rightarrow> world \<Rightarrow> jsstring list \<times> world" where
  "checkChaptersJson e basePath w =
     (case fetch e GET (basePath @ str ''chapters.json'') w of
        (None, w') \<Rightarrow> ([], w')
      | (Some response, w') \<Rightarrow>
          if ok response then
            (case body_json response of
               Some (JArray chapters) \<Rightarrow> (chapter_names chapters, w')
             | _ \<Rightarrow> ([], w'))
          else ([], w'))"

subsection \<open>\<open>discoverFiles\<close>\<close>

definition discoverFiles ::
  "env \<Rightarrow> jsstring \<Rightarrow> scanner \<times> world \<Rightarrow> jsstring list \<times> scanner \<times> world"
where
  "discoverFiles e basePath \<sigma> =
     (case \<sigma> of (this, w) \<Rightarrow>
        (case tryIndexFile e basePath w of (indexNames, w1) \<Rightarrow>
           (let foundFiles1 = foldl set_add [] indexNames
            in (case tryDirectoryListing e basePath w1 of (dirFiles, w2) \<Rightarrow>
                  (let foundFiles2 = foldl set_add foundFiles1 dirFiles
                   in (case tryPatternScanning e basePath (this, w2) of (patternFiles, this3, w3) \<Rightarrow>
                         (let foundFiles3 = foldl set_add foundFiles2 patternFiles
                          in (case checkChaptersJson e basePath w3 of (chapterFiles, w4) \<Rightarrow>
                                (foldl set_add foundFiles3 chapterFiles, this3, w4)))))))))"

section \<open>The scan: \<open>scanDirectory\<close> and \<open>performScan\<close>\<close>

text \<open>The loop of \<open>scanDirectory\<close> over the discovered names.\<close>

definition scan_file ::
  "env \<Rightarrow> jsstring \<Rightarrow> file_record list \<times> world \<Rightarrow> jsstring \<Rightarrow> file_record list \<times> world"
where
  "scan_file e basePath acc fileName =
     (case acc of (fileDetails, w) \<Rightarrow>
        (let fileUrl = basePath @ fileName @ str ''.xml''
         in (case getFileInfo e fileUrl w of
               (Exists content cs lm sz, w') \<Rightarrow>
                 (fileDetails @
                    [\<lparr>name = fileName, url = fileUrl, checksum = cs, lastModified = lm, size_f = sz\<rparr>],
                  w')
             | (NotExists, w') \<Rightarrow> (fileDetails, w'))))"

text \<open>
  Every step of \<open>discoverFiles\<close> and \<open>getFileInfo\<close> catches the failures of the transport
  itself, so nothing reaches the \<open>catch\<close> of \<open>scanDirectory\<close>.
\<close>

definition scanDirectory ::
  "env \<Rightarrow> jsstring \<Rightarrow> scanner \<times> world \<Rightarrow> file_record list \<times> scanner \<times> world"
where
  "scanDirectory e basePath \<sigma> =
     (case discoverFiles e basePath \<sigma> of (fileNames, this', w') \<Rightarrow>
        (case foldl (scan_file e basePath) ([], w') fileNames of (fileDetails, w'') \<Rightarrow>
           (fileDetails, this', w'')))"

text \<open>
  \<open>performScan\<close> returns the report, or the object \<open>{ hasChanges: false }\<close> of its \<open>catch\<close>
  when the call of \<open>this.onChange\<close> throws; \<open>scanDirectory\<close> and \<open>detectChanges\<close> do not
  throw. Called while it is still the method of the prototype, \<open>this.onChange(changes)\<close>
  assigns the report to \<open>this.onChange\<close>, which from then on is an object and no function.
\<close>

datatype scan_result = Report change_report | NoChanges

definition performScan ::
  "env \<Rightarrow> jsstring \<Rightarrow> scanner \<times> world \<Rightarrow> scan_result \<times> scanner \<times> world"
where
  "performScan e basePath \<sigma> =
     (case scanDirectory e basePath \<sigma> of (currentFiles, this1, w1) \<Rightarrow>
        (let report = detectChanges currentFiles this1;
             this2 = this1\<lparr>lastScanResults := currentFiles\<rparr>
         in if hasChanges report then
              (case onChange this2 of
                 PrototypeMethod \<Rightarrow> (Report report, this2\<lparr>onChange := NotCallable True\<rparr>, w1)
               | Function callback \<Rightarrow>
                   (if callback report then (Report report, this2, w1) else (NoChanges, this2, w1))
               | NotCallable truthy \<Rightarrow>
                   (if truthy then (NoChanges, this2, w1) else (Report report, this2, w1)))
            else (Report report, this2, w1)))"

section \<open>The remaining public operations\<close>

text \<open>
  \<open>startScanning\<close> and \<open>stopScanning\<close> only set and clear the timer that calls
  \<open>performScan\<close>; they are not part of this development.
\<close>

definition refreshFile ::
  "env \<Rightarrow> jsstring \<Rightarrow> jsstring \<Rightarrow> scanner \<times> world \<Rightarrow> file_info \<times> scanner \<times> world"
where
  "refreshFile e fileName basePath \<sigma> =
     (case \<sigma> of (this, w) \<Rightarrow>
        (let fileUrl = basePath @ fileName @ str ''.xml'';
             this1 = this\<lparr>cache := AList.delete (str ''exists:'' @ fileUrl) (cache this)\<rparr>;
             this2 = this1\<lparr>contentCache := AList.delete fileUrl (contentCache this1)\<rparr>
         in (case getFileInfo e fileUrl w of (info, w') \<Rightarrow> (info, this2, w'))))"

definition getCachedContent :: "jsstring \<Rightarrow> jsstring \<Rightarrow> scanner \<Rightarrow> file_info option" where
  "getCachedContent fileName basePath this =
     (let fileUrl = basePath @ fileName @ str ''.xml'' in map_of (contentCache this) fileUrl)"

text \<open>The method \<open>onChange(callback)\<close> of the prototype.\<close>

definition onChange_method :: "on_change \<Rightarrow> scanner \<Rightarrow> scanner" where
  "onChange_method callback this = this\<lparr>onChange := callback\<rparr>"

section \<open>Notions used in the statements\<close>

subsection \<open>The change detector\<close>

text \<open>
  A map is \<open>keyed\<close> when no name occurs twice among its keys and each record is filed
  under its own name.
\<close>

definition keyed :: "(jsstring, file_record) js_map \<Rightarrow> bool" where
  "keyed m \<longleftrightarrow> distinct (map fst m) \<and> list_all (\<lambda>(n, f). name f = n) m"

text \<open>
  \<open>differs c p\<close>: one of the three compared fields differs; \<open>entry_of\<close>: the entry pushed to
  \<open>modified\<close>; \<open>only_in m other\<close>: the records of \<open>m\<close> whose name \<open>other\<close> does not have;
  \<open>modified_of\<close> and \<open>unchanged_of\<close>: what the third loop appends to the two lists.
\<close>

definition differs :: "file_record \<Rightarrow> file_record \<Rightarrow> bool" where
  "differs c p \<longleftrightarrow>
     checksum c \<noteq> checksum p \<or> lastModified c \<noteq> lastModified p \<or> size_f c \<noteq> size_f p"

definition entry_of :: "jsstring \<Rightarrow> file_record \<Rightarrow> file_record \<Rightarrow> modified_entry" where
  "entry_of n p c =
     \<lparr>m_name = n, previous = p, current = c,
      changes = \<lparr>contentChanged = (checksum c \<noteq> checksum p),
                 sizeChanged = (size_f c \<noteq> size_f p),
                 timeChanged = (lastModified c \<noteq> lastModified p)\<rparr>\<rparr>"

definition only_in :: "(jsstring, file_record) js_map \<Rightarrow> (jsstring, file_record) js_map \<Rightarrow> file_record list" where
  "only_in m other = map snd (filter (\<lambda>e. \<not> has other (fst e)) m)"

definition modified_of :: "(jsstring, file_record) js_map \<Rightarrow> (jsstring, file_record) js_map \<Rightarrow> modified_entry list" where
  "modified_of P m =
     concat (map (\<lambda>e. case map_of P (fst e) of None \<Rightarrow> []
                       | Some p \<Rightarrow> if differs (snd e) p then [entry_of (fst e) p (snd e)] else []) m)"

definition unchanged_of :: "(jsstring, file_record) js_map \<Rightarrow> (jsstring, file_record) js_map \<Rightarrow> file_record list" where
  "unchanged_of P m =
     concat (map (\<lambda>e. case map_of P (fst e) of None \<Rightarrow> []
                       | Some p \<Rightarrow> if differs (snd e) p then [] else [snd e]) m)"

text \<open>
  Scenario 3 of the specification: the previous snapshot holds \<open>ch1\<close> with checksum
  \<open>x1\<close>, the current one holds it with checksum \<open>x2\<close> and the same size and time.
\<close>

definition ch1_x1 :: file_record where
  "ch1_x1 = \<lparr>name = str ''ch1'', url = str ''/docs/ch1.xml'', checksum = str ''x1'',
             lastModified = str ''t1'', size_f = 10\<rparr>"

definition ch1_x2 :: file_record where
  "ch1_x2 = \<lparr>name = str ''ch1'', url = str ''/docs/ch1.xml'', checksum = str ''x2'',
             lastModified = str ''t1'', size_f = 10\<rparr>"

subsection \<open>The transport\<close>

text \<open>Environments and a world for the examples: a server that gives the same answer to every
  call and takes 100 ms for it, one that is out of reach, and one that has every file.\<close>

definition server :: "(meth \<Rightarrow> jsstring \<Rightarrow> response option) \<Rightarrow> env" where
  "server answer =
     \<lparr>respond = (\<lambda>k. answer), latency = (\<lambda>k. 100),
      toISOString = (\<lambda>t. str ''2026-11-03T02:03:00.000Z''), anchor_hrefs = (\<lambda>html. [])\<rparr>"

definition offline :: env where
  "offline = server (\<lambda>m u. None)"

definition found_response :: response where
  "found_response =
     \<lparr>ok = True, headers = (\<lambda>h. None), body_text = Some (str ''<quiz/>''), body_json = None\<rparr>"

definition online :: env where
  "online = server (\<lambda>m u. Some found_response)"

definition start :: world where
  "start = \<lparr>clock = 0, requests = []\<rparr>"

text \<open>A header counts when it is present and not empty.\<close>

definition nonempty_header :: "response \<Rightarrow> jsstring \<Rightarrow> bool" where
  "nonempty_header r h \<longleftrightarrow> (case headers r h of None \<Rightarrow> False | Some v \<Rightarrow> v \<noteq> [])"

text \<open>A response with an empty \<open>last-modified\<close> header and a \<open>date\<close> header.\<close>

definition empty_stamp_response :: response where
  "empty_stamp_response =
     \<lparr>ok = True,
      headers = (\<lambda>h. if h = str ''last-modified'' then Some []
                     else if h = str ''date'' then Some (str ''Tue, 03 Nov 2026 02:03:00 GMT'')
                     else None),
      body_text = Some (str ''<quiz/>''), body_json = None\<rparr>"

text \<open>The cache holds an entry for the URL that is younger than 30 seconds.\<close>

definition fresh_entry :: "scanner \<Rightarrow> world \<Rightarrow> jsstring \<Rightarrow> bool" where
  "fresh_entry this w u \<longleftrightarrow>
     (case map_of (cache this) (str ''exists:'' @ u) of
        None \<Rightarrow> False
      | Some c \<Rightarrow> clock w - timestamp c < 30000)"

subsection \<open>The index files\<close>

text \<open>
  What the search finds, said without the search: \<open>ends_xml s\<close> when \<open>s\<close> ends with
  \<open>.xml\<close> in any letter case, \<open>stem s\<close> what precedes these four characters, and
  \<open>last_segment t\<close> the part of \<open>t\<close> after its last \<open>/\<close> (all of \<open>t\<close> when it has none).
\<close>

definition ends_xml :: "jsstring \<Rightarrow> bool" where
  "ends_xml s \<longleftrightarrow> 4 \<le> length s \<and> xml_at_end (drop (length s - 4) s)"

definition stem :: "jsstring \<Rightarrow> jsstring" where
  "stem s = take (length s - 4) s"

definition last_segment :: "jsstring \<Rightarrow> jsstring" where
  "last_segment s = rev (takeWhile (\<lambda>c. c \<noteq> 0x2F) (rev s))"

text \<open>
  \<open>index_yield\<close>: the names one index file gives, none when the call fails, the response
  is not \<open>ok\<close> or the body cannot be read. \<open>yield_at e basePath fs w i\<close>: the names given
  by the \<open>i\<close>-th file of \<open>fs\<close> in a run of the loop that starts in the world \<open>w\<close>.
\<close>

definition index_yield :: "response option \<Rightarrow> jsstring list" where
  "index_yield answer =
     (case answer of
        None \<Rightarrow> []
      | Some response \<Rightarrow>
          if ok response
          then (case body_text response of None \<Rightarrow> [] | Some body \<Rightarrow> index_lines body)
          else [])"

definition yield_at :: "env \<Rightarrow> jsstring \<Rightarrow> jsstring list \<Rightarrow> world \<Rightarrow> nat \<Rightarrow> jsstring list" where
  "yield_at e basePath fs w i =
     index_yield (respond e (length (requests w) + i) GET (basePath @ fs ! i))"

text \<open>
  An index file whose only line has a query after the extension, and a site whose
  \<open>index.txt\<close> is missing and whose \<open>files.txt\<close> lists two chapters.
\<close>

definition query_index_response :: response where
  "query_index_response =
     \<lparr>ok = True, headers = (\<lambda>h. None), body_text = Some (str ''docs/ch1.xml?v=2''),
      body_json = None\<rparr>"

definition files_txt_answer :: "meth \<Rightarrow> jsstring \<Rightarrow> response option" where
  "files_txt_answer m u =
     (if u = str ''/quiz/files.txt''
      then Some \<lparr>ok = True, headers = (\<lambda>h. None),
                body_text = Some (str ''chapter-1.xml'' @ [0x0A] @ str ''chapter-2.xml'' @ [0x0A]),
                body_json = None\<rparr>
      else Some \<lparr>ok = False, headers = (\<lambda>h. None), body_text = Some [], body_json = None\<rparr>)"

subsection \<open>The scan\<close>

text \<open>
  A scan writes to the existence cache and to nothing else of the scanner:
  \<open>cache_only a b\<close> when \<open>b\<close> is \<open>a\<close> with another cache.
\<close>

definition cache_only :: "scanner \<Rightarrow> scanner \<Rightarrow> bool" where
  "cache_only a b \<longleftrightarrow> b = a\<lparr>cache := cache b\<rparr>"

section \<open>Properties of the fingerprint\<close>

lemma toInt32_cong: "x mod 2 ^ 32 = y mod 2 ^ 32 \<Longrightarrow> toInt32 x = toInt32 y"
  unfolding toInt32_def by (metis mod_add_left_eq)

lemma toInt32_mod: "toInt32 x mod 2 ^ 32 = x mod 2 ^ 32"
  unfolding toInt32_def by (simp add: mod_diff_left_eq)

lemma toInt32_range: "- (2 ^ 31) \<le> toInt32 x \<and> toInt32 x < 2 ^ 31"
  unfolding toInt32_def by simp

text \<open>The three definitions on \<open>int\<close> are the operations of 32-bit words.\<close>

lemma toInt32_word: "toInt32 x = sint (word_of_int x :: 32 word)"
  unfolding toInt32_def
  by (simp add: sint_uint signed_take_bit_eq_take_bit_shift take_bit_eq_mod uint_word_of_int_eq
      mod_simps)

lemma js_shl_word: "js_shl x n = sint (push_bit (n mod 32) (word_of_int x :: 32 word))"
  unfolding js_shl_def toInt32_word by (simp add: push_bit_eq_mult)

lemma js_and_word: "js_and x y = sint ((word_of_int x :: 32 word) AND word_of_int y)"
  unfolding js_and_def toInt32_word by (simp add: signed_and_eq)

lemma js_and_self: "js_and x x = toInt32 x"
  by (simp add: js_and_def)

lemma mod_context:
  "(a::int) mod m = b mod m \<Longrightarrow> (a * k - h + c) mod m = (b * k - h + c) mod m"
  by (metis mod_add_left_eq mod_diff_left_eq mod_mult_left_eq)

lemma checksum_step_eq: "checksum_step h c = toInt32 (h * 31 + uint c)"
proof -
  have "(toInt32 (toInt32 h * 32) * 1 - h + uint c) mod 2 ^ 32
      = ((toInt32 h * 32) * 1 - h + uint c) mod 2 ^ 32"
    by (rule mod_context) (rule toInt32_mod)
  moreover have "(toInt32 h * 32 - h + uint c) mod 2 ^ 32 = (h * 32 - h + uint c) mod 2 ^ 32"
    by (rule mod_context) (rule toInt32_mod)
  ultimately have "(toInt32 (toInt32 h * 32) - h + uint c) mod 2 ^ 32 = (h * 31 + uint c) mod 2 ^ 32"
    by (simp add: algebra_simps)
  then have "toInt32 (toInt32 (toInt32 h * 32) - h + uint c) = toInt32 (h * 31 + uint c)"
    by (rule toInt32_cong)
  then show ?thesis
    by (simp add: checksum_step_def js_and_self js_shl_def)
qed

lemmas eval_checksum =
  generateChecksum_def str_def checksum_step_eq toInt32_def toString36_def digits36.simps
  digit36_def

text \<open>
  Claim C3, as the specification states it, fails: it takes \<open>hash*31 - hash\<close>, which is
  \<open>30 * hash\<close>, for the accumulation, where the source computes \<open>(hash << 5) - hash\<close>, which
  is \<open>31 * hash\<close>. On the two-character content \<open>ab\<close> the source returns \<open>2e9\<close> (3105 in
  base 36) and the specification's accumulation gives \<open>2bk\<close> (3008).
\<close>

theorem generateChecksum_spec_counterexample:
  "generateChecksum (str ''ab'') = str ''2e9'' \<and> spec_fingerprint (str ''ab'') = str ''2bk'' \<and>
   generateChecksum (str ''ab'') \<noteq> spec_fingerprint (str ''ab'')"
  by (simp add: eval_checksum spec_fingerprint_def)

text \<open>
  Claim C3, amended: for every content string, \<open>generateChecksum\<close> returns the base-36
  rendering of the accumulator obtained by iterating the UTF-16 code units of the
  content, starting from 0 and updating \<open>hash = (hash*32 - hash) + code\<close>, that is
  \<open>hash*31 + code\<close>, under 32-bit signed wrap-around.
\<close>

theorem generateChecksum_accumulates:
  "generateChecksum content =
     toString36 (foldl (\<lambda>hash code. toInt32 ((hash * 32 - hash) + uint code)) 0 content) \<and>
   generateChecksum content =
     toString36 (foldl (\<lambda>hash code. toInt32 (hash * 31 + uint code)) 0 content)"
proof -
  have step: "checksum_step = (\<lambda>hash code. toInt32 (hash * 31 + uint code))"
    by (intro ext) (rule checksum_step_eq)
  have same: "(\<lambda>hash code. toInt32 ((hash * 32 - hash) + uint code))
      = (\<lambda>hash code. toInt32 (hash * 31 + uint code))"
    by (intro ext) (simp add: algebra_simps)
  show ?thesis
    by (simp only: generateChecksum_def step same)
qed

section \<open>Properties of the change detector\<close>

subsection \<open>The maps built from the snapshots\<close>

text \<open>
  The map built from a snapshot has one entry for each name, filed under the name of its
  record; the record is the last one of that name in the snapshot.
\<close>

lemma set_update_subset: "set (AList.update k v m) \<subseteq> insert (k, v) (set m)"
  by (induction m) auto

lemma keyed_update: "keyed m \<Longrightarrow> keyed (AList.update (name f) f m)"
proof -
  assume k: "keyed m"
  have "set (AList.update (name f) f m) \<subseteq> insert (name f, f) (set m)"
    by (rule set_update_subset)
  with k show ?thesis
    unfolding keyed_def list_all_iff by (auto simp: distinct_update)
qed

lemma find_append_js:
  "find P (xs @ ys) = (case find P xs of None \<Rightarrow> find P ys | Some x \<Rightarrow> Some x)"
  by (induction xs) simp_all

lemma foldl_update_keyed:
  "keyed m \<Longrightarrow> keyed (foldl (\<lambda>m file. AList.update (name file) file m) m xs)"
  by (induction xs arbitrary: m) (simp_all add: keyed_update)

lemma foldl_update_map_of:
  "map_of (foldl (\<lambda>m file. AList.update (name file) file m) m xs) n =
     (case find (\<lambda>f. name f = n) (rev xs) of Some f \<Rightarrow> Some f | None \<Rightarrow> map_of m n)"
  by (induction xs arbitrary: m) (auto simp: update_conv' find_append_js split: option.splits)

lemma keyed_to_map: "keyed (to_map xs)"
  unfolding to_map_def by (rule foldl_update_keyed) (simp add: keyed_def)

lemma map_of_to_map: "map_of (to_map xs) n = find (\<lambda>f. name f = n) (rev xs)"
  unfolding to_map_def by (simp add: foldl_update_map_of split: option.splits)

lemma has_to_map: "has (to_map xs) n \<longleftrightarrow> n \<in> name ` set xs"
  unfolding has_def map_of_to_map by (auto simp: find_None_iff)

lemma keys_to_map: "fst ` set (to_map xs) = name ` set xs"
proof -
  have "fst ` set (to_map xs) = dom (map_of (to_map xs))" by (simp add: dom_map_of_conv_image_fst)
  also have "\<dots> = {n. has (to_map xs) n}" by (auto simp: has_def)
  also have "\<dots> = name ` set xs" by (simp add: has_to_map)
  finally show ?thesis .
qed

lemma to_map_entry: "(n, f) \<in> set (to_map xs) \<Longrightarrow> name f = n \<and> map_of (to_map xs) n = Some f"
  using keyed_to_map [of xs] unfolding keyed_def list_all_iff by auto

subsection \<open>The three loops in closed form\<close>

lemma added_loop:
  "foldl (check_added P) r m =
     r\<lparr>added := added r @ only_in m P, hasChanges := hasChanges r \<or> only_in m P \<noteq> []\<rparr>"
  by (induction m arbitrary: r) (auto simp: check_added_def only_in_def)

lemma removed_loop:
  "foldl (check_removed C) r m =
     r\<lparr>removed := removed r @ only_in m C, hasChanges := hasChanges r \<or> only_in m C \<noteq> []\<rparr>"
  by (induction m arbitrary: r) (auto simp: check_removed_def only_in_def)

lemma modified_loop:
  "foldl (check_modified P) r m =
     r\<lparr>modified := modified r @ modified_of P m,
       unchanged := unchanged r @ unchanged_of P m,
       hasChanges := hasChanges r \<or> modified_of P m \<noteq> []\<rparr>"
  by (induction m arbitrary: r)
     (auto simp: check_modified_def modified_of_def unchanged_of_def differs_def entry_of_def
           split: option.splits)

lemma detectChanges_closed:
  "detectChanges B this =
     (let C = to_map B; P = to_map (lastScanResults this) in
      \<lparr>hasChanges = (only_in C P \<noteq> [] \<or> only_in P C \<noteq> [] \<or> modified_of P C \<noteq> []),
       added = only_in C P, removed = only_in P C, modified = modified_of P C,
       unchanged = unchanged_of P C, allFiles = map name B\<rparr>)"
  by (simp add: detectChanges_def Let_def added_loop removed_loop modified_loop)

subsection \<open>The names in the four lists\<close>

lemma names_only_in:
  "name ` set (only_in (to_map X) (to_map Y)) = name ` set X - name ` set Y"
proof -
  have "name ` set (only_in (to_map X) (to_map Y))
      = {n. \<exists>f. (n, f) \<in> set (to_map X) \<and> \<not> has (to_map Y) n}"
    unfolding only_in_def using to_map_entry [of _ _ X] by (auto simp: image_iff) force
  also have "\<dots> = {n. n \<in> fst ` set (to_map X) \<and> n \<notin> name ` set Y}"
    by (auto simp: has_to_map image_iff) force+
  finally show ?thesis by (auto simp: keys_to_map)
qed

lemma modified_of_Nil: "modified_of P [] = []"
  by (simp add: modified_of_def)

lemma modified_of_Cons:
  "modified_of P (e # m) =
     (case map_of P (fst e) of None \<Rightarrow> []
      | Some p \<Rightarrow> if differs (snd e) p then [entry_of (fst e) p (snd e)] else []) @ modified_of P m"
  by (simp add: modified_of_def)

lemma unchanged_of_Nil: "unchanged_of P [] = []"
  by (simp add: unchanged_of_def)

lemma unchanged_of_Cons:
  "unchanged_of P (e # m) =
     (case map_of P (fst e) of None \<Rightarrow> []
      | Some p \<Rightarrow> if differs (snd e) p then [] else [snd e]) @ unchanged_of P m"
  by (simp add: unchanged_of_def)

lemma set_modified_of:
  "set (modified_of P C) =
     {entry_of n p c | n p c. (n, c) \<in> set C \<and> map_of P n = Some p \<and> differs c p}"
proof (induction C)
  case Nil
  show ?case by (simp add: modified_of_Nil)
next
  case (Cons e C)
  obtain n c where e: "e = (n, c)" by (cases e)
  show ?case
    unfolding modified_of_Cons set_append Cons.IH e
    by (cases "map_of P n") auto
qed

lemma set_unchanged_of:
  "set (unchanged_of P C) = {c. \<exists>n p. (n, c) \<in> set C \<and> map_of P n = Some p \<and> \<not> differs c p}"
proof (induction C)
  case Nil
  show ?case by (simp add: unchanged_of_Nil)
next
  case (Cons e C)
  obtain n c where e: "e = (n, c)" by (cases e)
  show ?case
    unfolding unchanged_of_Cons set_append Cons.IH e
    by (cases "map_of P n") auto
qed

lemma names_modified:
  "m_name ` set (modified_of (to_map A) (to_map B)) =
     {n. \<exists>p c. map_of (to_map A) n = Some p \<and> map_of (to_map B) n = Some c \<and> differs c p}"
  unfolding set_modified_of using to_map_entry [of _ _ B]
  by (auto simp: entry_of_def image_iff dest: map_of_SomeD) (metis modified_entry.select_convs(1) map_of_SomeD)

lemma names_unchanged:
  "name ` set (unchanged_of (to_map A) (to_map B)) =
     {n. \<exists>p c. map_of (to_map A) n = Some p \<and> map_of (to_map B) n = Some c \<and> \<not> differs c p}"
  unfolding set_unchanged_of using to_map_entry [of _ _ B]
  by (auto simp: image_iff dest: map_of_SomeD) (metis map_of_SomeD)

lemma both_iff:
  "n \<in> name ` set A \<inter> name ` set B \<longleftrightarrow>
     (\<exists>p c. map_of (to_map A) n = Some p \<and> map_of (to_map B) n = Some c)"
  using has_to_map [of A n] has_to_map [of B n] unfolding has_def by auto

lemma modified_unchanged_split:
  "m_name ` set (modified_of (to_map A) (to_map B)) \<union>
   name ` set (unchanged_of (to_map A) (to_map B)) = name ` set A \<inter> name ` set B"
  unfolding names_modified names_unchanged
  by (rule set_eqI) (auto simp: both_iff simp del: Int_iff)

lemma modified_unchanged_disjoint:
  "m_name ` set (modified_of (to_map A) (to_map B)) \<inter>
   name ` set (unchanged_of (to_map A) (to_map B)) = {}"
  unfolding names_modified names_unchanged by auto

text \<open>
  Claim C1: for every previous snapshot (the \<open>lastScanResults\<close> of the scanner) and
  current snapshot \<open>B\<close>, the names of \<open>added\<close> are exactly the names in \<open>B\<close> and not in
  the previous snapshot, the names of \<open>removed\<close> exactly those in the previous snapshot
  and not in \<open>B\<close>, the names of \<open>modified\<close> and of \<open>unchanged\<close> lie in the intersection,
  the four name sets are pairwise disjoint, and their union is the union of the names
  of the two snapshots.
\<close>

theorem detectChanges_partition:
  "let r = detectChanges B this;
       namesA = name ` set (lastScanResults this);
       namesB = name ` set B;
       addedN = name ` set (added r);
       removedN = name ` set (removed r);
       modifiedN = m_name ` set (modified r);
       unchangedN = name ` set (unchanged r)
   in addedN = namesB - namesA \<and> removedN = namesA - namesB \<and>
      modifiedN \<subseteq> namesA \<inter> namesB \<and> unchangedN \<subseteq> namesA \<inter> namesB \<and>
      addedN \<union> removedN \<union> modifiedN \<union> unchangedN = namesA \<union> namesB \<and>
      addedN \<inter> removedN = {} \<and> addedN \<inter> modifiedN = {} \<and> addedN \<inter> unchangedN = {} \<and>
      removedN \<inter> modifiedN = {} \<and> removedN \<inter> unchangedN = {} \<and>
      modifiedN \<inter> unchangedN = {}"
proof -
  let ?A = "lastScanResults this"
  let ?m = "m_name ` set (modified_of (to_map ?A) (to_map B))"
  let ?u = "name ` set (unchanged_of (to_map ?A) (to_map B))"
  have split: "?m \<union> ?u = name ` set ?A \<inter> name ` set B"
    by (rule modified_unchanged_split)
  have disj: "?m \<inter> ?u = {}"
    by (rule modified_unchanged_disjoint)
  from split have m: "?m \<subseteq> name ` set ?A \<inter> name ` set B"
    and u: "?u \<subseteq> name ` set ?A \<inter> name ` set B" by blast+
  have un: "(name ` set B - name ` set ?A) \<union> (name ` set ?A - name ` set B) \<union> ?m \<union> ?u
      = name ` set ?A \<union> name ` set B"
    using split by blast
  show ?thesis
    unfolding detectChanges_closed Let_def
    apply (simp only: change_report.simps names_only_in)
    using m u un disj by blast
qed

lemma m_name_entry_of: "m_name (entry_of n p c) = n"
  by (simp add: entry_of_def)

lemma modified_of_absent:
  "n \<notin> fst ` set C \<Longrightarrow> filter (\<lambda>m. m_name m = n) (modified_of P C) = []"
  by (induction C) (auto simp: modified_of_Nil modified_of_Cons m_name_entry_of split: option.splits)

lemma unchanged_of_absent:
  "n \<notin> fst ` set C \<Longrightarrow> keyed C \<Longrightarrow> filter (\<lambda>f. name f = n) (unchanged_of P C) = []"
  by (induction C) (auto simp: unchanged_of_Nil unchanged_of_Cons keyed_def split: option.splits)

lemma modified_of_at:
  "keyed C \<Longrightarrow> map_of C n = Some c \<Longrightarrow> map_of P n = Some p \<Longrightarrow>
   filter (\<lambda>m. m_name m = n) (modified_of P C) = (if differs c p then [entry_of n p c] else [])"
proof (induction C)
  case Nil
  then show ?case by simp
next
  case (Cons e C)
  obtain k v where e: "e = (k, v)" by (cases e)
  from Cons.prems(1) have kC: "keyed C" and fresh: "k \<notin> fst ` set C"
    by (auto simp: keyed_def e)
  show ?case
  proof (cases "k = n")
    case True
    with Cons.prems(2) have "v = c" by (simp add: e)
    with True fresh Cons.prems(3) show ?thesis
      by (simp add: modified_of_Cons e m_name_entry_of modified_of_absent)
  next
    case False
    with Cons.prems(2) have "map_of C n = Some c" by (simp add: e)
    with Cons.IH kC Cons.prems(3) False show ?thesis
      by (simp add: modified_of_Cons e m_name_entry_of split: option.splits)
  qed
qed

lemma unchanged_of_at:
  "keyed C \<Longrightarrow> map_of C n = Some c \<Longrightarrow> map_of P n = Some p \<Longrightarrow>
   filter (\<lambda>f. name f = n) (unchanged_of P C) = (if differs c p then [] else [c])"
proof (induction C)
  case Nil
  then show ?case by simp
next
  case (Cons e C)
  obtain k v where e: "e = (k, v)" by (cases e)
  from Cons.prems(1) have kC: "keyed C" and fresh: "k \<notin> fst ` set C" and kv: "name v = k"
    by (auto simp: keyed_def e)
  show ?case
  proof (cases "k = n")
    case True
    with Cons.prems(2) have "v = c" by (simp add: e)
    with True fresh kC kv Cons.prems(3) show ?thesis
      by (simp add: unchanged_of_Cons e unchanged_of_absent)
  next
    case False
    with Cons.prems(2) have "map_of C n = Some c" by (simp add: e)
    with Cons.IH kC kv Cons.prems(3) False show ?thesis
      by (simp add: unchanged_of_Cons e split: option.splits)
  qed
qed

text \<open>
  Claim C2: \<open>hasChanges\<close> is true if and only if \<open>added\<close>, \<open>removed\<close> or \<open>modified\<close> is not
  empty, for every pair of snapshots. And for every name \<open>n\<close> held by both snapshots, with
  \<open>p\<close> the previous and \<open>c\<close> the current record of that name (the one the map holds: the
  last of that name, should a snapshot list it twice), \<open>modified\<close> has an entry for \<open>n\<close> if
  and only if the checksum, \<open>lastModified\<close> or the size differs; the entry is then the
  only one for \<open>n\<close>, it holds \<open>p\<close> and \<open>c\<close>, and each of its three flags says whether the
  corresponding field differs; otherwise \<open>c\<close> is the entry of \<open>unchanged\<close> for \<open>n\<close>.
\<close>

theorem detectChanges_modified_iff:
  "let r = detectChanges B this
   in (hasChanges r \<longleftrightarrow> added r \<noteq> [] \<or> removed r \<noteq> [] \<or> modified r \<noteq> []) \<and>
      (\<forall>n p c.
         map_of (to_map (lastScanResults this)) n = Some p \<and> map_of (to_map B) n = Some c \<longrightarrow>
         (let contentDiffers = (checksum c \<noteq> checksum p);
              timeDiffers = (lastModified c \<noteq> lastModified p);
              sizeDiffers = (size_f c \<noteq> size_f p);
              anyDiffers = (contentDiffers \<or> timeDiffers \<or> sizeDiffers)
          in ((\<exists>m \<in> set (modified r). m_name m = n) \<longleftrightarrow> anyDiffers) \<and>
             filter (\<lambda>m. m_name m = n) (modified r) =
               (if anyDiffers
                then [\<lparr>m_name = n, previous = p, current = c,
                       changes = \<lparr>contentChanged = contentDiffers, sizeChanged = sizeDiffers,
                                  timeChanged = timeDiffers\<rparr>\<rparr>]
                else []) \<and>
             filter (\<lambda>f. name f = n) (unchanged r) = (if anyDiffers then [] else [c])))"
proof -
  let ?P = "to_map (lastScanResults this)" and ?C = "to_map B"
  have flag: "hasChanges (detectChanges B this) \<longleftrightarrow>
      added (detectChanges B this) \<noteq> [] \<or> removed (detectChanges B this) \<noteq> [] \<or>
      modified (detectChanges B this) \<noteq> []"
    unfolding detectChanges_closed Let_def by (simp only: change_report.simps)
  have both: "((\<exists>m \<in> set (modified (detectChanges B this)). m_name m = n) \<longleftrightarrow>
        (checksum c \<noteq> checksum p \<or> lastModified c \<noteq> lastModified p \<or> size_f c \<noteq> size_f p)) \<and>
      filter (\<lambda>m. m_name m = n) (modified (detectChanges B this)) =
        (if checksum c \<noteq> checksum p \<or> lastModified c \<noteq> lastModified p \<or> size_f c \<noteq> size_f p
         then [\<lparr>m_name = n, previous = p, current = c,
                changes = \<lparr>contentChanged = (checksum c \<noteq> checksum p),
                           sizeChanged = (size_f c \<noteq> size_f p),
                           timeChanged = (lastModified c \<noteq> lastModified p)\<rparr>\<rparr>]
         else []) \<and>
      filter (\<lambda>f. name f = n) (unchanged (detectChanges B this)) =
        (if checksum c \<noteq> checksum p \<or> lastModified c \<noteq> lastModified p \<or> size_f c \<noteq> size_f p
         then [] else [c])"
    if p: "map_of ?P n = Some p" and c: "map_of ?C n = Some c" for n p c
  proof -
    have m: "filter (\<lambda>m. m_name m = n) (modified_of ?P ?C) =
        (if differs c p then [entry_of n p c] else [])"
      using keyed_to_map c p by (rule modified_of_at)
    have u: "filter (\<lambda>f. name f = n) (unchanged_of ?P ?C) = (if differs c p then [] else [c])"
      using keyed_to_map c p by (rule unchanged_of_at)
    have ex: "(\<exists>m \<in> set (modified_of ?P ?C). m_name m = n) \<longleftrightarrow> differs c p"
    proof -
      have "(\<exists>m \<in> set (modified_of ?P ?C). m_name m = n)
          \<longleftrightarrow> filter (\<lambda>m. m_name m = n) (modified_of ?P ?C) \<noteq> []"
        by (simp add: filter_empty_conv)
      then show ?thesis by (simp add: m)
    qed
    show ?thesis
      unfolding detectChanges_closed Let_def
      apply (simp only: change_report.simps)
      using m u ex by (simp add: differs_def entry_of_def)
  qed
  show ?thesis
    unfolding Let_def using flag both by blast
qed

lemma to_map_single: "to_map [f] = [(name f, f)]"
  by (simp add: to_map_def)

theorem detectChanges_modified_iff_witness:
  "map_of (to_map (lastScanResults (constructor\<lparr>lastScanResults := [ch1_x1]\<rparr>))) (str ''ch1'') = Some ch1_x1 \<and>
   map_of (to_map [ch1_x2]) (str ''ch1'') = Some ch1_x2 \<and>
   modified (detectChanges [ch1_x2] (constructor\<lparr>lastScanResults := [ch1_x1]\<rparr>)) =
     [\<lparr>m_name = str ''ch1'', previous = ch1_x1, current = ch1_x2,
       changes = \<lparr>contentChanged = True, sizeChanged = False, timeChanged = False\<rparr>\<rparr>] \<and>
   unchanged (detectChanges [ch1_x2] (constructor\<lparr>lastScanResults := [ch1_x1]\<rparr>)) = [] \<and>
   hasChanges (detectChanges [ch1_x2] (constructor\<lparr>lastScanResults := [ch1_x1]\<rparr>)) \<and>
   added (detectChanges [ch1_x1] constructor) = [ch1_x1] \<and>
   hasChanges (detectChanges [ch1_x1] constructor)"
proof -
  let ?s = "constructor\<lparr>lastScanResults := [ch1_x1]\<rparr>"
  have p: "map_of (to_map (lastScanResults ?s)) (str ''ch1'') = Some ch1_x1"
    by (simp add: to_map_single ch1_x1_def)
  have c: "map_of (to_map [ch1_x2]) (str ''ch1'') = Some ch1_x2"
    by (simp add: to_map_single ch1_x2_def)
  have differ: "checksum ch1_x2 \<noteq> checksum ch1_x1" "lastModified ch1_x2 = lastModified ch1_x1"
    "size_f ch1_x2 = size_f ch1_x1"
    by (simp_all add: ch1_x1_def ch1_x2_def str_def)
  have m: "modified (detectChanges [ch1_x2] ?s) =
      [\<lparr>m_name = str ''ch1'', previous = ch1_x1, current = ch1_x2,
        changes = \<lparr>contentChanged = True, sizeChanged = False, timeChanged = False\<rparr>\<rparr>]"
    by (simp add: detectChanges_def to_map_single check_added_def check_removed_def
        check_modified_def has_def ch1_x1_def ch1_x2_def str_def)
  have a: "added (detectChanges [ch1_x1] constructor) = [ch1_x1]"
    by (simp add: detectChanges_def to_map_single constructor_def to_map_def check_added_def
        check_modified_def has_def ch1_x1_def)
  from detectChanges_modified_iff [of "[ch1_x2]" ?s, unfolded Let_def] p c differ
  have h: "hasChanges (detectChanges [ch1_x2] ?s) \<longleftrightarrow>
      added (detectChanges [ch1_x2] ?s) \<noteq> [] \<or> removed (detectChanges [ch1_x2] ?s) \<noteq> [] \<or>
      modified (detectChanges [ch1_x2] ?s) \<noteq> []"
    by blast
  from detectChanges_modified_iff [of "[ch1_x1]" constructor, unfolded Let_def]
  have h1: "hasChanges (detectChanges [ch1_x1] constructor) \<longleftrightarrow>
      added (detectChanges [ch1_x1] constructor) \<noteq> [] \<or>
      removed (detectChanges [ch1_x1] constructor) \<noteq> [] \<or>
      modified (detectChanges [ch1_x1] constructor) \<noteq> []"
    by blast
  have un: "unchanged (detectChanges [ch1_x2] ?s) = []"
    by (simp add: detectChanges_def to_map_single check_added_def check_removed_def
        check_modified_def has_def ch1_x1_def ch1_x2_def str_def)
  from h m have "hasChanges (detectChanges [ch1_x2] ?s)" by simp
  moreover from h1 a have "hasChanges (detectChanges [ch1_x1] constructor)" by simp
  ultimately show ?thesis
    using p c m un a by simp
qed

text \<open>Scenarios 1 and 2 of the specification: a first scan, and a scan that finds nothing new.\<close>

lemma scenario_first_scan:
  "detectChanges [ch1_x1] constructor =
     \<lparr>hasChanges = True, added = [ch1_x1], removed = [], modified = [], unchanged = [],
      allFiles = [str ''ch1'']\<rparr>"
  by (simp add: detectChanges_def to_map_single constructor_def to_map_def check_added_def
      check_modified_def has_def ch1_x1_def)

lemma scenario_same_snapshot:
  "detectChanges [ch1_x1] (constructor\<lparr>lastScanResults := [ch1_x1]\<rparr>) =
     \<lparr>hasChanges = False, added = [], removed = [], modified = [], unchanged = [ch1_x1],
      allFiles = [str ''ch1'']\<rparr>"
  by (simp add: detectChanges_def to_map_single check_added_def check_removed_def
      check_modified_def has_def ch1_x1_def)

text \<open>
  Claim C10: \<open>allFiles\<close> is the list of the names of the records of the current
  snapshot; its names are those of the added, modified and unchanged files, and no
  name of a removed file is among them.
\<close>

theorem detectChanges_allFiles:
  "let r = detectChanges B this
   in allFiles r = map name B \<and>
      set (allFiles r) = name ` set (added r) \<union> m_name ` set (modified r) \<union> name ` set (unchanged r) \<and>
      set (allFiles r) \<inter> name ` set (removed r) = {}"
proof -
  let ?A = "lastScanResults this"
  have "m_name ` set (modified_of (to_map ?A) (to_map B)) \<union>
        name ` set (unchanged_of (to_map ?A) (to_map B)) = name ` set ?A \<inter> name ` set B"
    by (rule modified_unchanged_split)
  then have "name ` set B = (name ` set B - name ` set ?A) \<union>
        m_name ` set (modified_of (to_map ?A) (to_map B)) \<union>
        name ` set (unchanged_of (to_map ?A) (to_map B))"
    by blast
  then show ?thesis
    unfolding detectChanges_closed Let_def
    by (simp only: change_report.simps names_only_in set_map) blast
qed

subsection \<open>The method call\<close>

text \<open>
  Every statement of the call leaves the scanner and the world as they are, and the
  three locals end as the maps and the report of \<open>detectChanges\<close>.
\<close>

lemma set_current_loop:
  "foldl set_current st fs =
     st\<lparr>currentMap_v := foldl (\<lambda>m file. AList.update (name file) file m) (currentMap_v st) fs\<rparr>"
  by (induction fs arbitrary: st) (simp_all add: set_current_def)

lemma set_previous_loop:
  "foldl set_previous st fs =
     st\<lparr>previousMap_v := foldl (\<lambda>m file. AList.update (name file) file m) (previousMap_v st) fs\<rparr>"
  by (induction fs arbitrary: st) (simp_all add: set_previous_def)

lemma step_added_loop:
  "foldl step_added st m = st\<lparr>changes_v := foldl (check_added (previousMap_v st)) (changes_v st) m\<rparr>"
  by (induction m arbitrary: st) (simp_all add: step_added_def)

lemma step_removed_loop:
  "foldl step_removed st m = st\<lparr>changes_v := foldl (check_removed (currentMap_v st)) (changes_v st) m\<rparr>"
  by (induction m arbitrary: st) (simp_all add: step_removed_def)

lemma step_modified_loop:
  "foldl step_modified st m = st\<lparr>changes_v := foldl (check_modified (previousMap_v st)) (changes_v st) m\<rparr>"
  by (induction m arbitrary: st) (simp_all add: step_modified_def)

lemma log_changes_frame:
  "this_v (log_changes st) = this_v st \<and> world_v (log_changes st) = world_v st \<and>
   changes_v (log_changes st) = changes_v st"
  by (simp add: log_changes_def Let_def)

lemma detectChanges_call_eq:
  "detectChanges_call B (this, w, out) =
     (detectChanges B this, this, w,
      console_v (log_changes
        \<lparr>this_v = this, world_v = w, console_v = out, changes_v = detectChanges B this,
         currentMap_v = to_map B, previousMap_v = to_map (lastScanResults this)\<rparr>))"
proof -
  define r0 where "r0 = \<lparr>hasChanges = False, added = [], removed = [], modified = [], unchanged = [],
      allFiles = map name B\<rparr>"
  define C where "C = to_map B"
  define P where "P = to_map (lastScanResults this)"
  define st0 where "st0 = \<lparr>this_v = this, world_v = w, console_v = out, changes_v = r0,
      currentMap_v = [], previousMap_v = []\<rparr>"
  define st1 where "st1 = foldl set_current st0 B"
  define st2 where "st2 = foldl set_previous st1 (lastScanResults (this_v st1))"
  define st3 where "st3 = foldl step_added st2 (currentMap_v st2)"
  define st4 where "st4 = foldl step_removed st3 (previousMap_v st3)"
  define st5 where "st5 = foldl step_modified st4 (currentMap_v st4)"
  have call: "detectChanges_call B (this, w, out) =
      (changes_v (log_changes st5), this_v (log_changes st5), world_v (log_changes st5),
       console_v (log_changes st5))"
    by (simp add: detectChanges_call_def Let_def st5_def st4_def st3_def st2_def st1_def st0_def
        r0_def)
  have s1: "st1 = \<lparr>this_v = this, world_v = w, console_v = out, changes_v = r0,
      currentMap_v = C, previousMap_v = []\<rparr>"
    by (simp add: st1_def set_current_loop st0_def C_def to_map_def)
  have s2: "st2 = \<lparr>this_v = this, world_v = w, console_v = out, changes_v = r0,
      currentMap_v = C, previousMap_v = P\<rparr>"
    by (simp add: st2_def set_previous_loop s1 P_def to_map_def)
  have s3: "st3 = \<lparr>this_v = this, world_v = w, console_v = out,
      changes_v = foldl (check_added P) r0 C, currentMap_v = C, previousMap_v = P\<rparr>"
    by (simp add: st3_def step_added_loop s2)
  have s4: "st4 = \<lparr>this_v = this, world_v = w, console_v = out,
      changes_v = foldl (check_removed C) (foldl (check_added P) r0 C) P,
      currentMap_v = C, previousMap_v = P\<rparr>"
    by (simp add: st4_def step_removed_loop s3)
  have s5: "st5 = \<lparr>this_v = this, world_v = w, console_v = out,
      changes_v = foldl (check_modified P) (foldl (check_removed C) (foldl (check_added P) r0 C) P) C,
      currentMap_v = C, previousMap_v = P\<rparr>"
    by (simp add: st5_def step_modified_loop s4)
  have d: "detectChanges B this =
      foldl (check_modified P) (foldl (check_removed C) (foldl (check_added P) r0 C) P) C"
    by (simp add: detectChanges_def Let_def r0_def C_def P_def)
  have s5': "st5 = \<lparr>this_v = this, world_v = w, console_v = out, changes_v = detectChanges B this,
      currentMap_v = to_map B, previousMap_v = to_map (lastScanResults this)\<rparr>"
    unfolding s5 d C_def P_def by (rule refl)
  have frame: "changes_v (log_changes st5) = changes_v st5" "this_v (log_changes st5) = this_v st5"
    "world_v (log_changes st5) = world_v st5"
    by (simp_all add: log_changes_frame)
  show ?thesis
    unfolding call frame unfolding s5' by simp
qed

lemma detectChanges_call_report: "fst (detectChanges_call B (this, w, out)) = detectChanges B this"
  by (simp add: detectChanges_call_eq)

lemma detectChanges_call_scanner: "fst (snd (detectChanges_call B (this, w, out))) = this"
  by (simp add: detectChanges_call_eq)

lemma detectChanges_call_world: "fst (snd (snd (detectChanges_call B (this, w, out)))) = w"
  by (simp add: detectChanges_call_eq)

lemma detectChanges_snapshots:
  "lastScanResults this = lastScanResults that \<Longrightarrow> detectChanges B this = detectChanges B that"
  by (simp add: detectChanges_def)

text \<open>
  Claim C7: a call of \<open>detectChanges\<close> returns the report that is the function
  \<open>detectChanges\<close> of the previous and the current snapshot; it leaves the scanner as it
  was and the world as it was, so it issues no transport call; a second call on the
  state the first one leaves returns the same report; and two scanners that retain
  the same previous snapshot get the same report for the same current snapshot,
  whatever their caches, the world and the console hold. Only the console grows.
\<close>

theorem detectChanges_call_pure:
  "(case detectChanges_call B (this, w, out) of
      (report, this', w', out') \<Rightarrow>
        report = detectChanges B this \<and> this' = this \<and> w' = w \<and> requests w' = requests w \<and>
        fst (detectChanges_call B (this', w', out')) = report) \<and>
   (lastScanResults this = lastScanResults that \<longrightarrow>
      fst (detectChanges_call B (this, w, out)) = fst (detectChanges_call B (that, w2, out2)) \<and>
      detectChanges B this = detectChanges B that)"
proof -
  obtain report this' w' out' where r: "detectChanges_call B (this, w, out) = (report, this', w', out')"
    by (cases "detectChanges_call B (this, w, out)")
  from r detectChanges_call_report [of B this w out] have report: "report = detectChanges B this"
    by simp
  from r detectChanges_call_scanner [of B this w out] have same_this: "this' = this" by simp
  from r detectChanges_call_world [of B this w out] have same_w: "w' = w" by simp
  have again: "fst (detectChanges_call B (this', w', out')) = report"
    unfolding same_this report by (rule detectChanges_call_report)
  have pair: "fst (detectChanges_call B (this, w, out)) = fst (detectChanges_call B (that, w2, out2)) \<and>
      detectChanges B this = detectChanges B that"
    if same: "lastScanResults this = lastScanResults that"
  proof -
    from same have "detectChanges B this = detectChanges B that"
      by (rule detectChanges_snapshots)
    then show ?thesis by (simp add: detectChanges_call_report)
  qed
  have first: "case detectChanges_call B (this, w, out) of
      (report, this', w', out') \<Rightarrow>
        report = detectChanges B this \<and> this' = this \<and> w' = w \<and> requests w' = requests w \<and>
        fst (detectChanges_call B (this', w', out')) = report"
    using report same_this same_w again by (simp add: r)
  from first pair show ?thesis by blast
qed

text \<open>
  A first scan on two scanners, one of them with an entry in its existence cache: the
  call logs the counts, returns the same report on both and changes neither.
\<close>

theorem detectChanges_call_pure_witness:
  "lastScanResults constructor =
     lastScanResults (constructor\<lparr>cache := [(str ''exists:/docs/ch1.xml'', \<lparr>exists = True, timestamp = 5\<rparr>)]\<rparr>) \<and>
   detectChanges_call [ch1_x1] (constructor, start, []) =
     (detectChanges [ch1_x1] constructor, constructor, start, [ChangesDetected 1 0 0 0]) \<and>
   fst (detectChanges_call [ch1_x1] (constructor, start, [])) =
     fst (detectChanges_call [ch1_x1]
       (constructor\<lparr>cache := [(str ''exists:/docs/ch1.xml'', \<lparr>exists = True, timestamp = 5\<rparr>)]\<rparr>,
        \<lparr>clock = 7, requests = [(HEAD, str ''/docs/ch1.xml'')]\<rparr>, [ChangesDetected 1 0 0 0]))"
proof -
  let ?that = "constructor\<lparr>cache := [(str ''exists:/docs/ch1.xml'', \<lparr>exists = True, timestamp = 5\<rparr>)]\<rparr>"
  let ?w2 = "\<lparr>clock = 7, requests = [(HEAD, str ''/docs/ch1.xml'')]\<rparr>"
  have same: "lastScanResults constructor = lastScanResults ?that"
    by (simp add: constructor_def)
  have first: "detectChanges [ch1_x1] constructor =
      \<lparr>hasChanges = True, added = [ch1_x1], removed = [], modified = [], unchanged = [],
       allFiles = [str ''ch1'']\<rparr>"
    by (simp add: detectChanges_def to_map_single constructor_def to_map_def check_added_def
        check_modified_def has_def ch1_x1_def)
  have out: "snd (snd (snd (detectChanges_call [ch1_x1] (constructor, start, [])))) =
      [ChangesDetected 1 0 0 0]"
    unfolding detectChanges_call_eq first by (simp add: log_changes_def)
  note inst = detectChanges_call_pure [of "[ch1_x1]" constructor start "[]" ?that ?w2
      "[ChangesDetected 1 0 0 0]"]
  from inst same
  have eq: "fst (detectChanges_call [ch1_x1] (constructor, start, [])) =
      fst (detectChanges_call [ch1_x1] (?that, ?w2, [ChangesDetected 1 0 0 0]))"
    by blast
  from inst
  have call: "fst (detectChanges_call [ch1_x1] (constructor, start, [])) = detectChanges [ch1_x1] constructor"
    and this': "fst (snd (detectChanges_call [ch1_x1] (constructor, start, []))) = constructor"
    and w': "fst (snd (snd (detectChanges_call [ch1_x1] (constructor, start, [])))) = start"
    by (auto split: prod.splits)
  from call this' w' out
  have "detectChanges_call [ch1_x1] (constructor, start, []) =
      (detectChanges [ch1_x1] constructor, constructor, start, [ChangesDetected 1 0 0 0])"
    by (cases "detectChanges_call [ch1_x1] (constructor, start, [])") simp
  with same eq show ?thesis by simp
qed

section \<open>Properties of the transport, the metadata fetcher and the existence probe\<close>

subsection \<open>\<open>getFileInfo\<close>\<close>

lemma fetch_fst: "fst (fetch e m u w) = respond e (length (requests w)) m u"
  by (simp add: fetch_def Let_def)

lemma fetch_requests: "requests (snd (fetch e m u w)) = requests w @ [(m, u)]"
  by (simp add: fetch_def Let_def)

lemma fetch_clock: "clock (snd (fetch e m u w)) = clock w + int (latency e (length (requests w)))"
  by (simp add: fetch_def Let_def)

lemma getFileInfo_world: "snd (getFileInfo e u w) = snd (fetch e GET u w)"
  by (simp add: getFileInfo_def Let_def split: prod.splits option.splits)

text \<open>
  Claim C5, amended: \<open>getFileInfo\<close> returns a value for every outcome of the transport.
  When \<open>fetch\<close> rejects, when the response is not \<open>ok\<close> and when \<open>text()\<close> rejects, the
  value is \<open>{ exists: false }\<close>. On success it is the record holding the body text, its
  \<open>generateChecksum\<close>, the length of the body as size and \<open>exists: true\<close>; its
  \<open>lastModified\<close> is the \<open>last-modified\<close> header when that is present and not empty,
  else the \<open>date\<close> header when that is present and not empty, else the current time.
\<close>

theorem getFileInfo_result:
  "(respond e (length (requests w)) GET u = None \<longrightarrow> fst (getFileInfo e u w) = NotExists) \<and>
   (\<forall>r. respond e (length (requests w)) GET u = Some r \<and> \<not> ok r \<longrightarrow>
        fst (getFileInfo e u w) = NotExists) \<and>
   (\<forall>r. respond e (length (requests w)) GET u = Some r \<and> ok r \<and> body_text r = None \<longrightarrow>
        fst (getFileInfo e u w) = NotExists) \<and>
   (\<forall>r body. respond e (length (requests w)) GET u = Some r \<and> ok r \<and> body_text r = Some body \<longrightarrow>
        (\<exists>lm. fst (getFileInfo e u w) = Exists body (generateChecksum body) lm (length body) \<and>
              info_exists (fst (getFileInfo e u w)) \<and>
              (\<forall>v. headers r (str ''last-modified'') = Some v \<and> v \<noteq> [] \<longrightarrow> lm = v) \<and>
              (\<forall>d. \<not> nonempty_header r (str ''last-modified'') \<and>
                   headers r (str ''date'') = Some d \<and> d \<noteq> [] \<longrightarrow> lm = d) \<and>
              (\<not> nonempty_header r (str ''last-modified'') \<and> \<not> nonempty_header r (str ''date'') \<longrightarrow>
                   lm = toISOString e (clock (snd (getFileInfo e u w))))))"
  unfolding getFileInfo_world
  by (auto simp: getFileInfo_def fetch_def Let_def nonempty_header_def info_exists_def
      split: option.splits list.splits)

text \<open>
  Claim C5, as stated, fails where a header is present and empty: \<open>||\<close> passes over the
  empty string as it does over \<open>null\<close>. With an empty \<open>last-modified\<close> header and a \<open>date\<close>
  header, \<open>lastModified\<close> is the date, not the \<open>last-modified\<close> header.
\<close>

theorem getFileInfo_empty_header_counterexample:
  "headers empty_stamp_response (str ''last-modified'') = Some [] \<and>
   fst (getFileInfo (server (\<lambda>m u. Some empty_stamp_response)) (str ''/docs/ch1.xml'') start) =
     Exists (str ''<quiz/>'') (generateChecksum (str ''<quiz/>''))
       (str ''Tue, 03 Nov 2026 02:03:00 GMT'') 7 \<and>
   Some (info_lastModified
      (fst (getFileInfo (server (\<lambda>m u. Some empty_stamp_response)) (str ''/docs/ch1.xml'') start)))
     \<noteq> headers empty_stamp_response (str ''last-modified'')"
  by (simp add: getFileInfo_def fetch_def server_def empty_stamp_response_def start_def str_def)

theorem getFileInfo_result_witness:
  "respond online (length (requests start)) GET (str ''/docs/ch1.xml'') = Some found_response \<and>
   ok found_response \<and> body_text found_response = Some (str ''<quiz/>'') \<and>
   \<not> nonempty_header found_response (str ''last-modified'') \<and>
   \<not> nonempty_header found_response (str ''date'') \<and>
   fst (getFileInfo online (str ''/docs/ch1.xml'') start) =
     Exists (str ''<quiz/>'') (generateChecksum (str ''<quiz/>''))
       (toISOString online 100) (length (str ''<quiz/>''))"
proof -
  let ?u = "str ''/docs/ch1.xml''"
  have resp: "respond online (length (requests start)) GET ?u = Some found_response"
    by (simp add: online_def server_def)
  have r: "ok found_response" "body_text found_response = Some (str ''<quiz/>'')"
    "\<not> nonempty_header found_response (str ''last-modified'')"
    "\<not> nonempty_header found_response (str ''date'')"
    by (simp_all add: found_response_def nonempty_header_def)
  have clk: "clock (snd (getFileInfo online ?u start)) = 100"
    by (simp add: getFileInfo_world fetch_def online_def server_def start_def)
  from getFileInfo_result [of online start ?u] resp r
  obtain lm where "fst (getFileInfo online ?u start) =
        Exists (str ''<quiz/>'') (generateChecksum (str ''<quiz/>'')) lm (length (str ''<quiz/>''))"
      and "lm = toISOString online (clock (snd (getFileInfo online ?u start)))"
    by blast
  with resp r clk show ?thesis by simp
qed

subsection \<open>\<open>testFileExists\<close>\<close>

lemma testFileExists_hit:
  "map_of (cache this) (str ''exists:'' @ u) = Some c \<Longrightarrow> clock w - timestamp c < 30000 \<Longrightarrow>
   testFileExists e u (this, w) = (exists c, this, w)"
  by (simp add: testFileExists_def Let_def)

lemma testFileExists_miss:
  "\<not> fresh_entry this w u \<Longrightarrow>
   testFileExists e u (this, w) =
     (case respond e (length (requests w)) HEAD u of
        None \<Rightarrow> (False, this, snd (fetch e HEAD u w))
      | Some r \<Rightarrow>
          (ok r,
           this\<lparr>cache := AList.update (str ''exists:'' @ u)
             \<lparr>exists = ok r, timestamp = clock (snd (fetch e HEAD u w))\<rparr> (cache this)\<rparr>,
           snd (fetch e HEAD u w)))"
  by (auto simp: testFileExists_def fresh_entry_def Let_def fetch_def split: option.splits)

lemma testFileExists_stored_hit:
  assumes "this' = this\<lparr>cache := AList.update (str ''exists:'' @ u) \<lparr>exists = b, timestamp = t\<rparr> (cache this)\<rparr>"
    and "clock w2 - t < 30000"
  shows "testFileExists e u (this', w2) = (b, this', w2)"
proof -
  have "map_of (cache this') (str ''exists:'' @ u) = Some \<lparr>exists = b, timestamp = t\<rparr>"
    by (simp add: assms(1) update_conv')
  from testFileExists_hit [OF this] assms(2) show ?thesis by simp
qed

lemma testFileExists_stored_miss:
  assumes "this' = this\<lparr>cache := AList.update (str ''exists:'' @ u) \<lparr>exists = b, timestamp = t\<rparr> (cache this)\<rparr>"
    and "\<not> clock w2 - t < 30000"
  shows "requests (snd (snd (testFileExists e u (this', w2)))) = requests w2 @ [(HEAD, u)]"
proof -
  have "\<not> fresh_entry this' w2 u"
    by (simp add: fresh_entry_def assms update_conv')
  then show ?thesis
    by (simp add: testFileExists_miss fetch_requests split: option.splits)
qed

text \<open>
  Claim C4, amended: when the cache holds an entry for the URL that is younger than 30
  seconds, \<open>testFileExists\<close> returns its boolean, issues no transport call and leaves the
  cache as it is. Otherwise it issues one \<open>HEAD\<close> call. When the transport fails it
  returns \<open>false\<close> and writes nothing to the cache. When the call completes it returns
  \<open>response.ok\<close> and stores it with the current time; a second probe of the URL less than
  30 seconds after that time returns the stored boolean without a transport call, and
  a probe at 30 seconds or later issues a second call.
\<close>

theorem testFileExists_cache:
  "(\<forall>c. map_of (cache this) (str ''exists:'' @ u) = Some c \<and> clock w - timestamp c < 30000 \<longrightarrow>
        testFileExists e u (this, w) = (exists c, this, w)) \<and>
   (\<not> fresh_entry this w u \<longrightarrow>
      (let w' = snd (fetch e HEAD u w)
       in requests w' = requests w @ [(HEAD, u)] \<and>
          (respond e (length (requests w)) HEAD u = None \<longrightarrow>
             testFileExists e u (this, w) = (False, this, w')) \<and>
          (\<forall>r. respond e (length (requests w)) HEAD u = Some r \<longrightarrow>
             (let this' = this\<lparr>cache := AList.update (str ''exists:'' @ u)
                            \<lparr>exists = ok r, timestamp = clock w'\<rparr> (cache this)\<rparr>
              in testFileExists e u (this, w) = (ok r, this', w') \<and>
                 (\<forall>w2. clock w2 - clock w' < 30000 \<longrightarrow>
                    testFileExists e u (this', w2) = (ok r, this', w2)) \<and>
                 (\<forall>w2. \<not> clock w2 - clock w' < 30000 \<longrightarrow>
                    requests (snd (snd (testFileExists e u (this', w2)))) =
                      requests w2 @ [(HEAD, u)])))))"
proof (intro conjI allI impI)
  fix c
  assume "map_of (cache this) (str ''exists:'' @ u) = Some c \<and> clock w - timestamp c < 30000"
  then show "testFileExists e u (this, w) = (exists c, this, w)"
    by (simp add: testFileExists_hit)
next
  assume stale: "\<not> fresh_entry this w u"
  show "let w' = snd (fetch e HEAD u w)
       in requests w' = requests w @ [(HEAD, u)] \<and>
          (respond e (length (requests w)) HEAD u = None \<longrightarrow>
             testFileExists e u (this, w) = (False, this, w')) \<and>
          (\<forall>r. respond e (length (requests w)) HEAD u = Some r \<longrightarrow>
             (let this' = this\<lparr>cache := AList.update (str ''exists:'' @ u)
                            \<lparr>exists = ok r, timestamp = clock w'\<rparr> (cache this)\<rparr>
              in testFileExists e u (this, w) = (ok r, this', w') \<and>
                 (\<forall>w2. clock w2 - clock w' < 30000 \<longrightarrow>
                    testFileExists e u (this', w2) = (ok r, this', w2)) \<and>
                 (\<forall>w2. \<not> clock w2 - clock w' < 30000 \<longrightarrow>
                    requests (snd (snd (testFileExists e u (this', w2)))) =
                      requests w2 @ [(HEAD, u)])))"
    unfolding Let_def
  proof (intro conjI allI impI)
    show "requests (snd (fetch e HEAD u w)) = requests w @ [(HEAD, u)]"
      by (rule fetch_requests)
  next
    assume "respond e (length (requests w)) HEAD u = None"
    with testFileExists_miss [OF stale, of e]
    show "testFileExists e u (this, w) = (False, this, snd (fetch e HEAD u w))" by simp
  next
    fix r assume "respond e (length (requests w)) HEAD u = Some r"
    with testFileExists_miss [OF stale, of e]
    show "testFileExists e u (this, w) =
        (ok r, this\<lparr>cache := AList.update (str ''exists:'' @ u)
             \<lparr>exists = ok r, timestamp = clock (snd (fetch e HEAD u w))\<rparr> (cache this)\<rparr>,
         snd (fetch e HEAD u w))" by simp
  next
    fix r :: response and w2 :: world assume "clock w2 - clock (snd (fetch e HEAD u w)) < 30000"
    then show "testFileExists e u (this\<lparr>cache := AList.update (str ''exists:'' @ u)
             \<lparr>exists = ok r, timestamp = clock (snd (fetch e HEAD u w))\<rparr> (cache this)\<rparr>, w2) =
        (ok r, this\<lparr>cache := AList.update (str ''exists:'' @ u)
             \<lparr>exists = ok r, timestamp = clock (snd (fetch e HEAD u w))\<rparr> (cache this)\<rparr>, w2)"
      by (rule testFileExists_stored_hit [OF refl])
  next
    fix r :: response and w2 :: world assume "\<not> clock w2 - clock (snd (fetch e HEAD u w)) < 30000"
    then show "requests (snd (snd (testFileExists e u (this\<lparr>cache := AList.update (str ''exists:'' @ u)
             \<lparr>exists = ok r, timestamp = clock (snd (fetch e HEAD u w))\<rparr> (cache this)\<rparr>, w2)))) =
        requests w2 @ [(HEAD, u)]"
      by (rule testFileExists_stored_miss [OF refl])
  qed
qed

text \<open>
  Claim C4, as stated, fails when the transport fails: the \<open>catch\<close> returns \<open>false\<close> past
  the \<open>cache.set\<close>, so nothing is written, and two probes of one URL 100 ms apart issue
  two transport calls.
\<close>

theorem testFileExists_twice_counterexample:
  "fst (testFileExists offline (str ''/docs/ch1.xml'') (constructor, start)) = False \<and>
   cache (fst (snd (testFileExists offline (str ''/docs/ch1.xml'') (constructor, start)))) = [] \<and>
   clock (snd (snd (testFileExists offline (str ''/docs/ch1.xml'') (constructor, start)))) = 100 \<and>
   requests (snd (snd (testFileExists offline (str ''/docs/ch1.xml'')
      (snd (testFileExists offline (str ''/docs/ch1.xml'') (constructor, start)))))) =
     [(HEAD, str ''/docs/ch1.xml''), (HEAD, str ''/docs/ch1.xml'')] \<and>
   length (requests (snd (snd (testFileExists offline (str ''/docs/ch1.xml'')
      (snd (testFileExists offline (str ''/docs/ch1.xml'') (constructor, start))))))) \<noteq> 1"
  by (simp add: testFileExists_def offline_def server_def constructor_def start_def fetch_def Let_def)

theorem testFileExists_cache_witness:
  "\<not> fresh_entry constructor start (str ''/docs/ch1.xml'') \<and>
   respond online (length (requests start)) HEAD (str ''/docs/ch1.xml'') = Some found_response \<and>
   fst (testFileExists online (str ''/docs/ch1.xml'') (constructor, start)) = True \<and>
   fst (testFileExists online (str ''/docs/ch1.xml'')
      (fst (snd (testFileExists online (str ''/docs/ch1.xml'') (constructor, start))),
       \<lparr>clock = 30099, requests = [(HEAD, str ''/docs/ch1.xml'')]\<rparr>)) = True \<and>
   requests (snd (snd (testFileExists online (str ''/docs/ch1.xml'')
      (fst (snd (testFileExists online (str ''/docs/ch1.xml'') (constructor, start))),
       \<lparr>clock = 30099, requests = [(HEAD, str ''/docs/ch1.xml'')]\<rparr>)))) =
     [(HEAD, str ''/docs/ch1.xml'')]"
proof -
  let ?u = "str ''/docs/ch1.xml''"
  let ?w2 = "\<lparr>clock = 30099, requests = [(HEAD, ?u)]\<rparr>"
  have stale: "\<not> fresh_entry constructor start ?u"
    by (simp add: fresh_entry_def constructor_def)
  have resp: "respond online (length (requests start)) HEAD ?u = Some found_response"
    by (simp add: online_def server_def)
  have w': "clock (snd (fetch online HEAD ?u start)) = 100"
    by (simp add: fetch_def online_def server_def start_def)
  have soon: "clock ?w2 - clock (snd (fetch online HEAD ?u start)) < 30000"
    by (simp add: w')
  from testFileExists_cache [of constructor ?u start online] stale resp
  have first: "testFileExists online ?u (constructor, start) =
      (ok found_response,
       constructor\<lparr>cache := AList.update (str ''exists:'' @ ?u)
          \<lparr>exists = ok found_response, timestamp = clock (snd (fetch online HEAD ?u start))\<rparr>
          (cache constructor)\<rparr>,
       snd (fetch online HEAD ?u start))"
    and again: "testFileExists online ?u
       (constructor\<lparr>cache := AList.update (str ''exists:'' @ ?u)
          \<lparr>exists = ok found_response, timestamp = clock (snd (fetch online HEAD ?u start))\<rparr>
          (cache constructor)\<rparr>, ?w2) =
      (ok found_response,
       constructor\<lparr>cache := AList.update (str ''exists:'' @ ?u)
          \<lparr>exists = ok found_response, timestamp = clock (snd (fetch online HEAD ?u start))\<rparr>
          (cache constructor)\<rparr>, ?w2)"
    using soon unfolding Let_def by blast+
  show ?thesis
    using stale resp first again by (simp add: found_response_def)
qed

section \<open>Properties of the index-file strategy\<close>

subsection \<open>The regular expression\<close>

lemma xml_at_end_length: "xml_at_end r \<Longrightarrow> length r = 4"
  by (auto simp: xml_at_end_def split: list.splits)

lemma ends_xml_Cons:
  "ends_xml (c # cs) \<longleftrightarrow> (if length cs < 4 then xml_at_end (c # cs) else ends_xml cs)"
proof (cases "length cs < 4")
  case True
  then show ?thesis
    using xml_at_end_length [of "c # cs"] by (auto simp: ends_xml_def)
next
  case False
  then have "length (c # cs) - 4 = Suc (length cs - 4)" by simp
  with False show ?thesis by (simp add: ends_xml_def)
qed

lemma stem_Cons: "4 \<le> length cs \<Longrightarrow> stem (c # cs) = c # stem cs"
proof -
  assume "4 \<le> length cs"
  then have "length (c # cs) - 4 = Suc (length cs - 4)" by simp
  then show ?thesis by (simp add: stem_def)
qed

lemma lazy_group_eq:
  "lazy_group acc r =
     (if ends_xml r \<and> 0x2F \<notin> set (stem r) then Some (acc @ stem r) else None)"
proof (induction r arbitrary: acc)
  case Nil
  show ?case by (subst lazy_group.simps) (simp add: ends_xml_def xml_at_end_def)
next
  case (Cons c cs)
  show ?case
  proof (cases "xml_at_end (c # cs)")
    case True
    then have "length (c # cs) = 4" by (rule xml_at_end_length)
    with True show ?thesis
      by (subst lazy_group.simps) (simp add: ends_xml_def stem_def)
  next
    case False
    show ?thesis
    proof (cases "length cs < 4")
      case True
      with False have "\<not> ends_xml (c # cs)" by (simp add: ends_xml_Cons)
      moreover from True have "\<not> ends_xml cs" by (simp add: ends_xml_def)
      ultimately show ?thesis
        using False by (subst lazy_group.simps) (simp add: Cons.IH)
    next
      case long: False
      then have s: "stem (c # cs) = c # stem cs" by (simp add: stem_Cons)
      from long have e: "ends_xml (c # cs) = ends_xml cs" by (simp add: ends_xml_Cons)
      show ?thesis
        using False by (subst lazy_group.simps) (auto simp: Cons.IH s e)
    qed
  qed
qed

lemma match_at_eq:
  "match_at s = (if ends_xml s \<and> stem s \<noteq> [] \<and> 0x2F \<notin> set (stem s) then Some (stem s) else None)"
proof (cases s)
  case Nil
  then show ?thesis by (simp add: match_at_def ends_xml_def)
next
  case (Cons c cs)
  show ?thesis
  proof (cases "length cs < 4")
    case True
    then have "\<not> ends_xml cs" by (simp add: ends_xml_def)
    moreover have "ends_xml (c # cs) \<Longrightarrow> stem (c # cs) = []"
      using True xml_at_end_length [of "c # cs"] by (simp add: ends_xml_Cons stem_def)
    ultimately show ?thesis
      unfolding Cons by (auto simp: match_at_def lazy_group_eq)
  next
    case False
    then have "stem (c # cs) = c # stem cs" "ends_xml (c # cs) = ends_xml cs"
      by (simp_all add: stem_Cons ends_xml_Cons)
    then show ?thesis
      unfolding Cons by (auto simp: match_at_def lazy_group_eq)
  qed
qed

lemma last_segment_whole: "0x2F \<notin> set s \<Longrightarrow> last_segment s = s"
proof -
  assume "0x2F \<notin> set s"
  then have "takeWhile (\<lambda>c. c \<noteq> 0x2F) (rev s) = rev s"
    by (auto simp: takeWhile_eq_all_conv)
  then show ?thesis unfolding last_segment_def by (simp only: rev_rev_ident)
qed

lemma last_segment_Cons: "0x2F \<in> set (c # s) \<Longrightarrow> last_segment (c # s) = last_segment s"
proof (cases "0x2F \<in> set s")
  case True
  then have "\<exists>x \<in> set (rev s). \<not> x \<noteq> 0x2F" by auto
  then obtain x where "x \<in> set (rev s)" "\<not> x \<noteq> 0x2F" by blast
  then have "takeWhile (\<lambda>c. c \<noteq> 0x2F) (rev s @ [c]) = takeWhile (\<lambda>c. c \<noteq> 0x2F) (rev s)"
    by (rule takeWhile_append1)
  then show ?thesis by (simp add: last_segment_def)
next
  case False
  assume "0x2F \<in> set (c # s)"
  with False have c: "c = 0x2F" by simp
  from False have "\<And>x. x \<in> set (rev s) \<Longrightarrow> x \<noteq> 0x2F" by auto
  then have "takeWhile (\<lambda>c. c \<noteq> 0x2F) (rev s @ [c]) = rev s @ takeWhile (\<lambda>c. c \<noteq> 0x2F) [c]"
    by (rule takeWhile_append2)
  with c have "last_segment (c # s) = s" by (simp add: last_segment_def)
  with False show ?thesis by (simp add: last_segment_whole)
qed

lemma match_xml_eq:
  "match_xml s =
     (if ends_xml s \<and> last_segment (stem s) \<noteq> [] then Some (last_segment (stem s)) else None)"
proof (induction s)
  case Nil
  show ?case by (simp add: ends_xml_def)
next
  case (Cons c cs)
  show ?case
  proof (cases "ends_xml (c # cs) \<and> stem (c # cs) \<noteq> [] \<and> 0x2F \<notin> set (stem (c # cs))")
    case True
    then show ?thesis by (simp add: match_at_eq last_segment_whole)
  next
    case fail: False
    then have "match_at (c # cs) = None" unfolding match_at_eq by (rule if_not_P)
    then have m: "match_xml (c # cs) = match_xml cs" by simp
    show ?thesis
    proof (cases "length cs < 4")
      case True
      then have "\<not> ends_xml cs" by (simp add: ends_xml_def)
      moreover have "ends_xml (c # cs) \<Longrightarrow> stem (c # cs) = []"
        using True xml_at_end_length [of "c # cs"] by (simp add: ends_xml_Cons stem_def)
      ultimately show ?thesis
        unfolding m Cons.IH by (auto simp: last_segment_def)
    next
      case False
      then have s: "stem (c # cs) = c # stem cs" and e: "ends_xml (c # cs) = ends_xml cs"
        by (simp_all add: stem_Cons ends_xml_Cons)
      show ?thesis
      proof (cases "ends_xml cs")
        case True
        with fail s e have "0x2F \<in> set (c # stem cs)" by simp
        then have "last_segment (c # stem cs) = last_segment (stem cs)"
          by (rule last_segment_Cons)
        then show ?thesis unfolding m Cons.IH s e by simp
      next
        case False
        then show ?thesis unfolding m Cons.IH e by simp
      qed
    qed
  qed
qed

lemma extract_name_eq:
  "extract_name line =
     (if ends_xml line \<and> last_segment (stem line) \<noteq> [] then last_segment (stem line)
      else remove_first (str ''.xml'') line)"
  by (simp add: extract_name_def match_xml_eq)

lemma startsWith_includes: "startsWith s p \<Longrightarrow> includes_js s p"
  by (cases s) (auto simp: startsWith_def)

lemma includes_drop: "includes_js (drop n s) p \<Longrightarrow> includes_js s p"
proof (induction s arbitrary: n)
  case Nil
  then show ?case by simp
next
  case (Cons c cs)
  then show ?case by (cases n) auto
qed

lemma endsWith_includes: "endsWith s p \<Longrightarrow> includes_js s p"
proof -
  assume e: "endsWith s p"
  then have "startsWith (drop (length s - length p) s) p"
    by (simp add: endsWith_def startsWith_def)
  then have "includes_js (drop (length s - length p) s) p" by (rule startsWith_includes)
  then show ?thesis by (rule includes_drop)
qed

lemma includes_nonempty: "includes_js s (str ''.xml'') \<Longrightarrow> s \<noteq> []"
  by (auto simp: str_def)

lemma index_lines_eq:
  "index_lines body =
     filter (\<lambda>n. n \<noteq> [])
       (map extract_name (filter (\<lambda>line. includes_js line (str ''.xml'')) (map trim (split_lines body))))"
proof -
  have "(\<lambda>line. line \<noteq> [] \<and> (endsWith line (str ''.xml'') \<or> includes_js line (str ''.xml'')))
      = (\<lambda>line. includes_js line (str ''.xml''))"
    using endsWith_includes includes_nonempty by (intro ext) blast
  then show ?thesis by (simp add: index_lines_def)
qed

subsection \<open>The loop over the index files\<close>

lemma loop_step_empty:
  "index_yield (respond e (length (requests w)) GET (basePath @ f)) = [] \<Longrightarrow>
   tryIndexFile_loop e basePath (f # fs) w = tryIndexFile_loop e basePath fs (snd (fetch e GET (basePath @ f) w))"
  by (auto simp: index_yield_def fetch_def Let_def split: option.splits if_splits)

lemma loop_step_found:
  "index_yield (respond e (length (requests w)) GET (basePath @ f)) \<noteq> [] \<Longrightarrow>
   tryIndexFile_loop e basePath (f # fs) w =
     (index_yield (respond e (length (requests w)) GET (basePath @ f)),
      snd (fetch e GET (basePath @ f) w))"
  by (auto simp: index_yield_def fetch_def Let_def split: option.splits if_splits)

declare tryIndexFile_loop.simps(2) [simp del]

lemma yield_at_shift:
  "yield_at e basePath fs (snd (fetch e GET u w)) j = yield_at e basePath (f # fs) w (Suc j)"
  by (simp add: yield_at_def fetch_requests)

lemma loop_first_success:
  "i < length fs \<Longrightarrow> \<forall>j<i. yield_at e basePath fs w j = [] \<Longrightarrow> yield_at e basePath fs w i \<noteq> [] \<Longrightarrow>
   fst (tryIndexFile_loop e basePath fs w) = yield_at e basePath fs w i \<and>
   requests (snd (tryIndexFile_loop e basePath fs w)) =
     requests w @ map (\<lambda>f. (GET, basePath @ f)) (take (Suc i) fs)"
proof (induction fs arbitrary: w i)
  case Nil
  then show ?case by simp
next
  case (Cons f fs)
  show ?case
  proof (cases i)
    case 0
    with Cons.prems(3) have "index_yield (respond e (length (requests w)) GET (basePath @ f)) \<noteq> []"
      by (simp add: yield_at_def)
    then show ?thesis
      using 0 by (simp add: loop_step_found yield_at_def fetch_requests)
  next
    case (Suc k)
    let ?w' = "snd (fetch e GET (basePath @ f) w)"
    from Cons.prems(2) Suc have "yield_at e basePath (f # fs) w 0 = []" by simp
    then have step: "tryIndexFile_loop e basePath (f # fs) w = tryIndexFile_loop e basePath fs ?w'"
      by (simp add: loop_step_empty yield_at_def)
    have k: "k < length fs" using Cons.prems(1) Suc by simp
    have before: "\<forall>j<k. yield_at e basePath fs ?w' j = []"
      using Cons.prems(2) Suc by (auto simp: yield_at_shift [where f = f])
    have at: "yield_at e basePath fs ?w' k \<noteq> []"
      using Cons.prems(3) Suc by (auto simp: yield_at_shift [where f = f])
    from Cons.IH [OF k before at] show ?thesis
      unfolding step using Suc by (simp add: yield_at_shift [where f = f] fetch_requests)
  qed
qed

lemma loop_no_success:
  "\<forall>j<length fs. yield_at e basePath fs w j = [] \<Longrightarrow>
   fst (tryIndexFile_loop e basePath fs w) = [] \<and>
   requests (snd (tryIndexFile_loop e basePath fs w)) =
     requests w @ map (\<lambda>f. (GET, basePath @ f)) fs"
proof (induction fs arbitrary: w)
  case Nil
  then show ?case by simp
next
  case (Cons f fs)
  let ?w' = "snd (fetch e GET (basePath @ f) w)"
  from Cons.prems have "yield_at e basePath (f # fs) w 0 = []" by simp
  then have step: "tryIndexFile_loop e basePath (f # fs) w = tryIndexFile_loop e basePath fs ?w'"
    by (simp add: loop_step_empty yield_at_def)
  have "\<forall>j<length fs. yield_at e basePath fs ?w' j = []"
    using Cons.prems by (auto simp: yield_at_shift [where f = f])
  from Cons.IH [OF this] show ?case
    unfolding step by (simp add: fetch_requests)
qed

lemmas eval_index =
  index_lines_def str_def trim_def is_space_def endsWith_def startsWith_def extract_name_def
  match_at_def lazy_group.simps xml_at_end_def

lemma scenario5:
  "index_lines (str ''chapter-1.xml'' @ [0x0A] @ str ''chapter-2.xml'' @ [0x0A]) =
     [str ''chapter-1'', str ''chapter-2'']"
  by (simp add: eval_index)

text \<open>
  Claim C8, amended: \<open>tryIndexFile\<close> fetches the index files in the fixed order, stops at
  the first one that gives at least one name and returns the names of that file only,
  issuing no call for the files after it; when none gives a name it returns the empty
  list after one call for each. The lines of a body are trimmed and kept when they
  contain \<open>.xml\<close>. A kept line that ends with \<open>.xml\<close> in any letter case, with at least
  one character other than \<open>/\<close> before it, gives the segment between the last \<open>/\<close> and
  that extension; any other kept line gives the line with its first \<open>.xml\<close> removed;
  empty names are dropped. The body of scenario 5 gives \<open>chapter-1\<close> and \<open>chapter-2\<close>.
\<close>

theorem tryIndexFile_first_success:
  "(\<forall>i. i < length indexFiles \<and> (\<forall>j<i. yield_at e basePath indexFiles w j = []) \<and>
        yield_at e basePath indexFiles w i \<noteq> [] \<longrightarrow>
        fst (tryIndexFile e basePath w) = yield_at e basePath indexFiles w i \<and>
        requests (snd (tryIndexFile e basePath w)) =
          requests w @ map (\<lambda>f. (GET, basePath @ f)) (take (Suc i) indexFiles)) \<and>
   ((\<forall>j<length indexFiles. yield_at e basePath indexFiles w j = []) \<longrightarrow>
        fst (tryIndexFile e basePath w) = [] \<and>
        requests (snd (tryIndexFile e basePath w)) =
          requests w @ map (\<lambda>f. (GET, basePath @ f)) indexFiles) \<and>
   (\<forall>body. index_lines body =
        filter (\<lambda>n. n \<noteq> [])
          (map extract_name
             (filter (\<lambda>line. includes_js line (str ''.xml'')) (map trim (split_lines body))))) \<and>
   (\<forall>line. extract_name line =
        (if ends_xml line \<and> last_segment (stem line) \<noteq> [] then last_segment (stem line)
         else remove_first (str ''.xml'') line)) \<and>
   index_lines (str ''chapter-1.xml'' @ [0x0A] @ str ''chapter-2.xml'' @ [0x0A]) =
     [str ''chapter-1'', str ''chapter-2'']"
  unfolding tryIndexFile_def
  using loop_first_success [of _ indexFiles e basePath w] loop_no_success [of indexFiles e basePath w]
    index_lines_eq extract_name_eq scenario5
  by blast

text \<open>
  Claim C8, as stated, fails for a line that contains \<open>.xml\<close> before its end: the regular
  expression does not match, and the fallback \<open>line.replace('.xml', '')\<close> keeps the path
  and what follows the extension. The line \<open>docs/ch1.xml?v=2\<close> gives \<open>docs/ch1?v=2\<close>,
  not \<open>ch1\<close>.
\<close>

theorem tryIndexFile_name_counterexample:
  "extract_name (str ''docs/ch1.xml?v=2'') = str ''docs/ch1?v=2'' \<and>
   fst (tryIndexFile (server (\<lambda>m u. Some query_index_response)) (str ''/quiz/'') start) =
     [str ''docs/ch1?v=2''] \<and>
   fst (tryIndexFile (server (\<lambda>m u. Some query_index_response)) (str ''/quiz/'') start) \<noteq>
     [str ''ch1'']"
  by (simp add: tryIndexFile_def indexFiles_def tryIndexFile_loop.simps fetch_def server_def
      start_def query_index_response_def eval_index)

theorem tryIndexFile_first_success_witness:
  "1 < length indexFiles \<and>
   yield_at (server files_txt_answer) (str ''/quiz/'') indexFiles start 0 = [] \<and>
   yield_at (server files_txt_answer) (str ''/quiz/'') indexFiles start 1 =
     [str ''chapter-1'', str ''chapter-2''] \<and>
   fst (tryIndexFile (server files_txt_answer) (str ''/quiz/'') start) =
     [str ''chapter-1'', str ''chapter-2''] \<and>
   requests (snd (tryIndexFile (server files_txt_answer) (str ''/quiz/'') start)) =
     [(GET, str ''/quiz/index.txt''), (GET, str ''/quiz/files.txt'')]"
proof -
  let ?e = "server files_txt_answer" and ?b = "str ''/quiz/''"
  have len: "1 < length indexFiles" by (simp add: indexFiles_def)
  have y0: "yield_at ?e ?b indexFiles start 0 = []"
    by (simp add: yield_at_def index_yield_def server_def files_txt_answer_def indexFiles_def
        str_def)
  have u1: "?b @ indexFiles ! 1 = str ''/quiz/files.txt''"
    by (simp add: indexFiles_def str_def)
  have y1: "yield_at ?e ?b indexFiles start 1 = [str ''chapter-1'', str ''chapter-2'']"
    unfolding yield_at_def u1
    by (simp add: index_yield_def server_def files_txt_answer_def scenario5 [simplified])
  have before: "\<forall>j<1. yield_at ?e ?b indexFiles start j = []"
    using y0 by simp
  have found: "yield_at ?e ?b indexFiles start 1 \<noteq> []"
    unfolding y1 by simp
  from tryIndexFile_first_success [of ?e ?b start] len before found
  have "fst (tryIndexFile ?e ?b start) = yield_at ?e ?b indexFiles start 1 \<and>
        requests (snd (tryIndexFile ?e ?b start)) =
          requests start @ map (\<lambda>f. (GET, ?b @ f)) (take (Suc 1) indexFiles)"
    by blast
  then show ?thesis
    using len y0 y1 by (simp add: indexFiles_def start_def str_def)
qed

section \<open>Properties of the scan\<close>

lemma cache_only_refl: "cache_only a a"
  by (simp add: cache_only_def)

lemma cache_only_trans: "cache_only a b \<Longrightarrow> cache_only b c \<Longrightarrow> cache_only a c"
  unfolding cache_only_def by (metis scanner.update_convs(1) scanner.surjective scanner.select_convs(1))

lemma cache_only_fields:
  "cache_only a b \<Longrightarrow>
   contentCache b = contentCache a \<and> lastScanResults b = lastScanResults a \<and>
   onChange b = onChange a \<and> scanInterval b = scanInterval a \<and> fileChecksums b = fileChecksums a"
  unfolding cache_only_def by (metis scanner.select_convs scanner.update_convs(1) scanner.surjective)

lemma testFileExists_cache_only:
  "cache_only (fst \<sigma>) (fst (snd (testFileExists e u \<sigma>)))"
  by (cases \<sigma>)
     (auto simp: testFileExists_def Let_def cache_only_def fetch_def split: option.splits)

lemma probe_name_cache_only:
  "cache_only (fst (snd acc)) (fst (snd (probe_name e basePath acc nm)))"
proof -
  obtain foundFiles \<sigma> where acc: "acc = (foundFiles, \<sigma>)" by (cases acc)
  have "cache_only (fst \<sigma>) (fst (snd (testFileExists e (basePath @ nm @ str ''.xml'') \<sigma>)))"
    by (rule testFileExists_cache_only)
  then show ?thesis
    by (auto simp: probe_name_def acc split: prod.splits)
qed

lemma foldl_cache_only:
  assumes "\<And>acc x. cache_only (fst (snd acc)) (fst (snd (f acc x)))"
  shows "cache_only (fst (snd acc)) (fst (snd (foldl f acc xs)))"
proof (induction xs arbitrary: acc)
  case Nil
  show ?case by (simp add: cache_only_refl)
next
  case (Cons x xs)
  have "cache_only (fst (snd acc)) (fst (snd (f acc x)))" by (rule assms)
  moreover have "cache_only (fst (snd (f acc x))) (fst (snd (foldl f (f acc x) xs)))"
    by (rule Cons.IH)
  ultimately show ?case by (simp add: cache_only_trans)
qed

lemma pattern_body_cache_only:
  "cache_only (fst (snd acc)) (fst (snd (pattern_body e basePath i acc pattern)))"
  unfolding pattern_body_def Let_def
  by (rule cache_only_trans [OF probe_name_cache_only probe_name_cache_only])

lemma pattern_round_cache_only:
  "cache_only (fst (snd acc)) (fst (snd (pattern_round e basePath acc i)))"
  unfolding pattern_round_def
  by (rule foldl_cache_only) (rule pattern_body_cache_only)

lemma tryPatternScanning_cache_only:
  "cache_only (fst \<sigma>) (fst (snd (tryPatternScanning e basePath \<sigma>)))"
proof -
  let ?acc1 = "foldl (pattern_round e basePath) ([], \<sigma>) [1 ..< Suc maxChecks]"
  have "cache_only (fst (snd ([]::jsstring list, \<sigma>))) (fst (snd ?acc1))"
    by (rule foldl_cache_only) (rule pattern_round_cache_only)
  moreover have "cache_only (fst (snd ?acc1))
      (fst (snd (foldl (probe_name e basePath) ?acc1 commonNames)))"
    by (rule foldl_cache_only) (rule probe_name_cache_only)
  ultimately have "cache_only (fst (snd ([]::jsstring list, \<sigma>)))
      (fst (snd (foldl (probe_name e basePath) ?acc1 commonNames)))"
    by (rule cache_only_trans)
  then show ?thesis
    by (simp add: tryPatternScanning_def Let_def)
qed

lemma discoverFiles_cache_only:
  "cache_only (fst \<sigma>) (fst (snd (discoverFiles e basePath \<sigma>)))"
proof -
  obtain this w where \<sigma>: "\<sigma> = (this, w)" by (cases \<sigma>)
  obtain indexNames w1 where i: "tryIndexFile e basePath w = (indexNames, w1)"
    by (cases "tryIndexFile e basePath w")
  obtain dirFiles w2 where d: "tryDirectoryListing e basePath w1 = (dirFiles, w2)"
    by (cases "tryDirectoryListing e basePath w1")
  obtain patternFiles this3 w3 where p: "tryPatternScanning e basePath (this, w2) = (patternFiles, this3, w3)"
    by (cases "tryPatternScanning e basePath (this, w2)")
  obtain chapterFiles w4 where c: "checkChaptersJson e basePath w3 = (chapterFiles, w4)"
    by (cases "checkChaptersJson e basePath w3")
  have "fst (snd (discoverFiles e basePath \<sigma>)) = this3"
    by (simp add: discoverFiles_def \<sigma> i d p c Let_def)
  moreover have "cache_only this this3"
    using tryPatternScanning_cache_only [of "(this, w2)" e basePath] by (simp add: p)
  ultimately show ?thesis by (simp add: \<sigma>)
qed

lemma scanDirectory_scanner:
  "fst (snd (scanDirectory e basePath \<sigma>)) = fst (snd (discoverFiles e basePath \<sigma>))"
  by (simp add: scanDirectory_def split: prod.splits)

lemma scanDirectory_cache_only:
  "cache_only (fst \<sigma>) (fst (snd (scanDirectory e basePath \<sigma>)))"
  unfolding scanDirectory_scanner by (rule discoverFiles_cache_only)

lemma performScan_snapshot:
  "lastScanResults (fst (snd (performScan e basePath \<sigma>))) = fst (scanDirectory e basePath \<sigma>)"
  by (simp add: performScan_def Let_def split: prod.splits on_change.splits)

lemma performScan_world:
  "snd (snd (performScan e basePath \<sigma>)) = snd (snd (scanDirectory e basePath \<sigma>))"
  by (simp add: performScan_def Let_def split: prod.splits on_change.splits)

lemma performScan_contentCache:
  "contentCache (fst (snd (performScan e basePath \<sigma>))) = contentCache (fst \<sigma>)"
proof -
  obtain currentFiles this1 w1 where s: "scanDirectory e basePath \<sigma> = (currentFiles, this1, w1)"
    by (cases "scanDirectory e basePath \<sigma>")
  from scanDirectory_cache_only [of \<sigma> e basePath, THEN cache_only_fields] s
  have "contentCache this1 = contentCache (fst \<sigma>)" by simp
  then show ?thesis
    by (simp add: performScan_def s Let_def split: on_change.splits)
qed

lemma performScan_report:
  "fst (performScan e basePath \<sigma>) = Report (detectChanges (fst (scanDirectory e basePath \<sigma>)) (fst \<sigma>)) \<or>
   fst (performScan e basePath \<sigma>) = NoChanges"
proof -
  obtain currentFiles this1 w1 where s: "scanDirectory e basePath \<sigma> = (currentFiles, this1, w1)"
    by (cases "scanDirectory e basePath \<sigma>")
  from scanDirectory_cache_only [of \<sigma> e basePath, THEN cache_only_fields] s
  have "lastScanResults this1 = lastScanResults (fst \<sigma>)" by simp
  then have "detectChanges currentFiles this1 = detectChanges currentFiles (fst \<sigma>)"
    by (simp add: detectChanges_def)
  then show ?thesis
    by (simp add: performScan_def s Let_def split: on_change.splits)
qed

text \<open>
  Claim C6: in \<open>performScan\<close>, once \<open>detectChanges\<close> has computed the report, the
  retained snapshot is the whole current snapshot, whether or not the report has
  changes and whether or not the callback throws. The scan before it leaves the
  retained snapshot as it was, so the report, when one is returned, compares the
  current snapshot with the previous one.
\<close>

theorem performScan_replaces_snapshot:
  "lastScanResults (fst (snd (performScan e basePath (this, w)))) =
     fst (scanDirectory e basePath (this, w)) \<and>
   lastScanResults (fst (snd (scanDirectory e basePath (this, w)))) = lastScanResults this \<and>
   (fst (performScan e basePath (this, w)) =
      Report (detectChanges (fst (scanDirectory e basePath (this, w))) this) \<or>
    fst (performScan e basePath (this, w)) = NoChanges)"
  using performScan_snapshot [of e basePath "(this, w)"]
    scanDirectory_cache_only [of "(this, w)" e basePath, THEN cache_only_fields]
    performScan_report [of e basePath "(this, w)"]
  by simp

lemma refreshFile_contentCache:
  "contentCache (fst (snd (refreshFile e fileName basePath (this, w)))) =
     AList.delete (basePath @ fileName @ str ''.xml'') (contentCache this)"
  by (simp add: refreshFile_def Let_def split: prod.splits)

lemma refreshFile_info:
  "fst (refreshFile e fileName basePath (this, w)) =
     fst (getFileInfo e (basePath @ fileName @ str ''.xml'') w)"
  by (simp add: refreshFile_def Let_def split: prod.splits)

text \<open>
  Claim C9 says that \<open>getCachedContent\<close> returns the content last fetched for a name. The
  source reads \<open>contentCache\<close> there and deletes from it in \<open>refreshFile\<close>, but no method
  ever stores into it. On a new scanner whose server has the file, \<open>refreshFile\<close> returns the
  content and \<open>getCachedContent\<close> then returns \<open>undefined\<close>; the same holds after any
  forced refresh and after any scan on a new scanner.
\<close>

theorem getCachedContent_never_filled:
  "fst (refreshFile online (str ''ch1'') (str ''/docs/'') (constructor, start)) =
     Exists (str ''<quiz/>'') (generateChecksum (str ''<quiz/>'')) (toISOString online 100) 7 \<and>
   getCachedContent (str ''ch1'') (str ''/docs/'')
     (fst (snd (refreshFile online (str ''ch1'') (str ''/docs/'') (constructor, start)))) = None \<and>
   getCachedContent fileName basePath
     (fst (snd (refreshFile e fileName basePath (constructor, w)))) = None \<and>
   getCachedContent fileName basePath (fst (snd (performScan e basePath (constructor, w)))) = None"
proof -
  have "fst (getFileInfo online (str ''/docs/'' @ str ''ch1'' @ str ''.xml'') start) =
      Exists (str ''<quiz/>'') (generateChecksum (str ''<quiz/>'')) (toISOString online 100) 7"
    by (simp add: getFileInfo_def fetch_def online_def server_def found_response_def start_def
        str_def)
  moreover have "contentCache constructor = []"
    by (simp add: constructor_def)
  ultimately show ?thesis
    by (simp add: getCachedContent_def refreshFile_contentCache refreshFile_info
        performScan_contentCache)
qed

end
